theory Spec2Isabelle
  imports Main
begin

section \<open>Runs, paragraphs and Python string primitives\<close>

text \<open>
  A run as \<^verbatim>\<open>_find_and_replace_in_paragraph\<close> and
  \<^verbatim>\<open>parse_document_structure\<close> see it: its text (\<^verbatim>\<open>run.text\<close>, the field
  \<open>run_text\<close>) and the formatting attributes the extractor reports. Python strings are
  lists of characters.
\<close>

record run =
  run_text :: string
  bold :: bool
  italic :: bool
  underline :: bool
  font_name :: "string option"
  font_size :: "string option"

text \<open>A run with the given text and no formatting, for the examples.\<close>

definition plain_run :: "string \<Rightarrow> run" where
  "plain_run s = \<lparr>run_text = s, bold = False, italic = False, underline = False,
                   font_name = None, font_size = None\<rparr>"

text \<open>
  A paragraph as python-docx presents it. Its inner content is a sequence of runs and of
  hyperlinks, a hyperlink holding runs of its own. The code reads a paragraph in two
  ways, and the two do not see the same content:
  \<^item> \<^verbatim>\<open>paragraph.runs\<close> is the list of the runs that are direct children of the
    paragraph; the runs inside a hyperlink are not in it;
  \<^item> \<^verbatim>\<open>paragraph.text\<close> is the text of the runs and of the hyperlinks, in document
    order (python-docx 1.0 and later; no version is pinned by the sources).

  Assigning \<^verbatim>\<open>run.text\<close> for a run of \<^verbatim>\<open>paragraph.runs\<close> changes that run inside the
  paragraph: \<open>put_runs\<close> writes a list of runs back in place of the direct runs and
  leaves the hyperlinks as they are.
\<close>

datatype inner_content = Run_item run | Hyperlink_item "run list"

type_synonym para = "inner_content list"

definition runs_text :: "run list \<Rightarrow> string" where
  "runs_text runs = concat (map run_text runs)"

fun content_text :: "inner_content \<Rightarrow> string" where
  "content_text (Run_item r) = run_text r"
| "content_text (Hyperlink_item rs) = runs_text rs"

definition paragraph_text :: "para \<Rightarrow> string" where
  "paragraph_text paragraph = concat (map content_text paragraph)"

fun paragraph_runs :: "para \<Rightarrow> run list" where
  "paragraph_runs [] = []"
| "paragraph_runs (Run_item r # items) = r # paragraph_runs items"
| "paragraph_runs (Hyperlink_item rs # items) = paragraph_runs items"

fun put_runs :: "para \<Rightarrow> run list \<Rightarrow> para" where
  "put_runs [] runs = []"
| "put_runs (Hyperlink_item rs # items) runs = Hyperlink_item rs # put_runs items runs"
| "put_runs (Run_item r # items) [] = Run_item r # put_runs items []"
| "put_runs (Run_item r # items) (r' # runs) = Run_item r' # put_runs items runs"

text \<open>\<^verbatim>\<open>s.startswith(t)\<close>, the test behind Python's substring search.\<close>

fun starts_with :: "string \<Rightarrow> string \<Rightarrow> bool" where
  "starts_with s [] = True"
| "starts_with [] (c # t) = False"
| "starts_with (d # s) (c # t) = (d = c \<and> starts_with s t)"

text \<open>
  \<^verbatim>\<open>s.find(t)\<close>: the lowest index at which \<^verbatim>\<open>t\<close> occurs in \<^verbatim>\<open>s\<close>, or nothing.
  \<^verbatim>\<open>t in s\<close> is \<open>str_find s t \<noteq> None\<close> and \<^verbatim>\<open>s.index(t)\<close> is the index found.
\<close>

fun str_find :: "string \<Rightarrow> string \<Rightarrow> nat option" where
  "str_find [] t = (if t = [] then Some 0 else None)"
| "str_find (c # s) t =
     (if starts_with (c # s) t then Some 0 else map_option Suc (str_find s t))"

text \<open>
  Python slices \<^verbatim>\<open>s[:k]\<close> and \<^verbatim>\<open>s[k:]\<close> for an integer \<^verbatim>\<open>k\<close>: a negative
  bound counts from the end of the string.
\<close>

definition slice_to :: "string \<Rightarrow> int \<Rightarrow> string" where
  "slice_to s k = (if k < 0 then take (nat (int (length s) + k)) s else take (nat k) s)"

definition slice_from :: "string \<Rightarrow> int \<Rightarrow> string" where
  "slice_from s k = (if k < 0 then drop (nat (int (length s) + k)) s else drop (nat k) s)"

section \<open>Run-level substitution\<close>

text \<open>
  The loop that builds \<^verbatim>\<open>run_positions\<close>: one triple
  \<^verbatim>\<open>(run_start, run_end, idx)\<close> per run, from the running offset \<^verbatim>\<open>current_pos\<close>.
\<close>

fun build_run_positions :: "run list \<Rightarrow> nat \<Rightarrow> nat \<Rightarrow> (nat \<times> nat \<times> nat) list" where
  "build_run_positions [] current_pos idx = []"
| "build_run_positions (r # rs) current_pos idx =
     (current_pos, current_pos + length (run_text r), idx)
       # build_run_positions rs (current_pos + length (run_text r)) (Suc idx)"

definition set_text :: "run list \<Rightarrow> nat \<Rightarrow> string \<Rightarrow> run list" where
  "set_text runs i s = runs[i := (runs ! i)\<lparr>run_text := s\<rparr>]"

text \<open>
  \<^verbatim>\<open>_find_and_replace_in_paragraph\<close>. The paragraph is mutated in place in the source;
  here the function returns its boolean together with the paragraph after the call.
  \<open>full_text\<close> is read from \<^verbatim>\<open>paragraph.text\<close> and \<open>runs\<close> from
  \<^verbatim>\<open>paragraph.runs\<close>, as in the source: the offsets of the match are offsets into
  \<open>full_text\<close>, the run positions are sums of the lengths of the runs of \<open>runs\<close>.
  The indices in \<^verbatim>\<open>run_positions\<close> come from \<^verbatim>\<open>enumerate(runs)\<close>, so every
  \<open>runs ! idx\<close> below is in range, and \<open>hd\<close>/\<open>last\<close> are taken of a list already tested
  to be non-empty. \<^verbatim>\<open>affected_runs[1:-1]\<close> is \<open>butlast (tl affected_runs)\<close>.
\<close>

definition find_and_replace_in_paragraph ::
  "para \<Rightarrow> string \<Rightarrow> string \<Rightarrow> bool \<times> para" where
  "find_and_replace_in_paragraph paragraph target_text replacement =
     (let full_text = paragraph_text paragraph in
      case str_find full_text target_text of
        None \<Rightarrow> (False, paragraph)
      | Some start_offset \<Rightarrow>
          let end_offset = start_offset + length target_text;
              runs = paragraph_runs paragraph
          in
          if runs = [] then (False, paragraph)
          else
            let run_positions = build_run_positions runs 0 0;
                affected_runs =
                  filter (\<lambda>(run_start, run_end, run_idx).
                            run_end > start_offset \<and> run_start < end_offset) run_positions
            in
            if affected_runs = [] then (False, paragraph)
            else
              let (first_run_start, first_run_end, first_run_idx) = hd affected_runs;
                  (last_run_start, last_run_end, last_run_idx) = last affected_runs;
                  prefix = slice_to (run_text (runs ! first_run_idx))
                             (int start_offset - int first_run_start);
                  suffix = slice_from (run_text (runs ! last_run_idx))
                             (int end_offset - int last_run_start)
              in
              if first_run_idx = last_run_idx
              then (True, put_runs paragraph
                            (set_text runs first_run_idx (prefix @ replacement @ suffix)))
              else
                let runs1 = set_text runs first_run_idx (prefix @ replacement);
                    runs2 = foldl (\<lambda>rs (_, _, run_idx). set_text rs run_idx [])
                              runs1 (butlast (tl affected_runs))
                in (True, put_runs paragraph (set_text runs2 last_run_idx suffix)))"

text \<open>
  \<^verbatim>\<open>_find_and_replace_in_cell\<close>: a cell is its list of paragraphs; the first paragraph
  in which the replacement succeeds ends the loop.
\<close>

type_synonym cell = "para list"

fun find_and_replace_in_cell :: "cell \<Rightarrow> string \<Rightarrow> string \<Rightarrow> bool \<times> cell" where
  "find_and_replace_in_cell [] target_text replacement = (False, [])"
| "find_and_replace_in_cell (para # paras) target_text replacement =
     (case find_and_replace_in_paragraph para target_text replacement of
        (True, para') \<Rightarrow> (True, para' # paras)
      | (False, para') \<Rightarrow>
          (case find_and_replace_in_cell paras target_text replacement of
             (ok, paras') \<Rightarrow> (ok, para' # paras')))"

text \<open>
  The concatenation of the texts of the runs of a cell: those of \<^verbatim>\<open>para.runs\<close> for
  each of its paragraphs.
\<close>

definition cell_runs_text :: "cell \<Rightarrow> string" where
  "cell_runs_text c = concat (map (\<lambda>paragraph. runs_text (paragraph_runs paragraph)) c)"

section \<open>Notions the properties are stated in\<close>

text \<open>
  An occurrence of \<open>t\<close> in \<open>s\<close> at offset \<open>j\<close>, and the first (leftmost) occurrence.
\<close>

definition occurs_at :: "string \<Rightarrow> string \<Rightarrow> nat \<Rightarrow> bool" where
  "occurs_at s t j \<longleftrightarrow> j \<le> length s \<and> take (length t) (drop j s) = t"

definition first_occurrence :: "string \<Rightarrow> string \<Rightarrow> nat \<Rightarrow> bool" where
  "first_occurrence s t i \<longleftrightarrow> occurs_at s t i \<and> (\<forall>j<i. \<not> occurs_at s t j)"

text \<open>
  The half-open interval \<open>[run_start, run_end)\<close> a run occupies in the concatenation of
  the runs' texts, and the runs whose interval shares at least one character position
  with the span \<open>[s, e)\<close>.
\<close>

definition run_start :: "run list \<Rightarrow> nat \<Rightarrow> nat" where
  "run_start runs i = length (runs_text (take i runs))"

definition run_end :: "run list \<Rightarrow> nat \<Rightarrow> nat" where
  "run_end runs i = run_start runs i + length (run_text (runs ! i))"

definition overlaps :: "run list \<Rightarrow> nat \<Rightarrow> nat \<Rightarrow> nat \<Rightarrow> bool" where
  "overlaps runs s e i \<longleftrightarrow>
     i < length runs \<and> max (run_start runs i) s < min (run_end runs i) e"

text \<open>
  A paragraph without hyperlink text: what \<^verbatim>\<open>paragraph.text\<close> returns is the
  concatenation of the texts of \<^verbatim>\<open>paragraph.runs\<close>.
\<close>

definition text_is_runs :: "para \<Rightarrow> bool" where
  "text_is_runs paragraph \<longleftrightarrow> paragraph_text paragraph = runs_text (paragraph_runs paragraph)"

text \<open>The formatting attributes of a run: everything but its text.\<close>

definition fmt :: "run \<Rightarrow> bool \<times> bool \<times> bool \<times> string option \<times> string option" where
  "fmt r = (bold r, italic r, underline r, font_name r, font_size r)"

text \<open>
  Two abbreviations used in the proofs: emptying the runs at a list of indices, and the
  text of run \<open>j\<close> after a substitution whose affected runs are \<open>f, \<dots>, l\<close>.
\<close>

definition blank_runs :: "run list \<Rightarrow> nat list \<Rightarrow> run list" where
  "blank_runs rs js = foldl (\<lambda>rs i. set_text rs i []) rs js"

definition new_text :: "run list \<Rightarrow> nat \<Rightarrow> nat \<Rightarrow> string \<Rightarrow> nat \<Rightarrow> nat \<Rightarrow> nat \<Rightarrow> string" where
  "new_text runs s e repl f l j =
     (if j = f \<and> j = l
      then take (s - run_start runs f) (run_text (runs ! f)) @ repl
             @ drop (e - run_start runs l) (run_text (runs ! l))
      else if j = f then take (s - run_start runs f) (run_text (runs ! f)) @ repl
      else if j = l then drop (e - run_start runs l) (run_text (runs ! l))
      else if f < j \<and> j < l then []
      else run_text (runs ! j))"

section \<open>Mappings, Python values and errors\<close>

text \<open>
  A mapping is a Python dict, the JSON body of a request. It is modelled as a record with
  one optional field per key the code reads: \<open>None\<close> means the key is absent
  (\<^verbatim>\<open>f not in mapping\<close>, \<^verbatim>\<open>mapping.get(f, default)\<close> taking its default,
  \<^verbatim>\<open>mapping[f]\<close> raising \<^verbatim>\<open>KeyError\<close>). Values have the type the data model gives
  them; a key holding a value of another JSON type is outside the model. The entries of
  \<^verbatim>\<open>cell_labels\<close> are dicts of the same kind. (The rows of the mapping table, in which
  every key is present and may hold \<^verbatim>\<open>None\<close>, are modelled with the schema derivation
  that reads them.)
\<close>

datatype py_error = KeyError string | IndexError | TypeError

record cell_label =
  cl_col_index :: "int option"
  cl_label :: "string option"
  cl_original_text :: "string option"
  cl_field_type :: "string option"

record mapping =
  mapping_type :: "string option"
  label :: "string option"
  paragraph_index :: "int option"
  table_index :: "int option"
  row_index :: "int option"
  col_index :: "int option"
  original_text :: "string option"
  required :: "bool option"
  field_type :: "string option"
  data_row_index :: "int option"
  loop_variable :: "string option"
  cell_labels :: "cell_label list option"

text \<open>\<^verbatim>\<open>d.get(key, default)\<close> and \<^verbatim>\<open>d[key]\<close> on an optional field.\<close>

definition get_or :: "'a option \<Rightarrow> 'a \<Rightarrow> 'a" where
  "get_or v d = (case v of None \<Rightarrow> d | Some x \<Rightarrow> x)"

definition item_of :: "string \<Rightarrow> 'a option \<Rightarrow> py_error + 'a" where
  "item_of key v = (case v of None \<Rightarrow> Inl (KeyError key) | Some x \<Rightarrow> Inr x)"

text \<open>
  Python list indexing with an integer: a negative index counts from the end, an index
  out of range raises \<^verbatim>\<open>IndexError\<close>. \<open>py_pos\<close> is the position an index denotes,
  if any.
\<close>

definition py_pos :: "nat \<Rightarrow> int \<Rightarrow> nat option" where
  "py_pos n i =
     (if 0 \<le> i \<and> i < int n then Some (nat i)
      else if i < 0 \<and> - int n \<le> i then Some (nat (int n + i))
      else None)"

text \<open>\<^verbatim>\<open>str(n)\<close> for a natural number and for an integer: decimal digits.\<close>

definition digit_char :: "nat \<Rightarrow> char" where
  "digit_char n = ''0123456789'' ! n"

function str_of_nat :: "nat \<Rightarrow> string" where
  "str_of_nat n = (if n < 10 then [digit_char n] else str_of_nat (n div 10) @ [digit_char (n mod 10)])"
  by pat_completeness auto
termination
  by (relation "measure id") auto

declare str_of_nat.simps [simp del]

definition str_of_int :: "int \<Rightarrow> string" where
  "str_of_int i = (if i < 0 then CHR ''-'' # str_of_nat (nat (- i)) else str_of_nat (nat i))"

section \<open>Templates and the kinds of mapping\<close>

text \<open>A template as the designer service reads it: its name and its status.\<close>

record template =
  tpl_name :: string
  tpl_status :: string

text \<open>
  Which mappings are scalar and which are loops, by their \<^verbatim>\<open>mapping_type\<close> (absent
  meaning \<^verbatim>\<open>paragraph\<close>).
\<close>

definition is_scalar :: "mapping \<Rightarrow> bool" where
  "is_scalar m \<longleftrightarrow> mapping_type m \<in> {None, Some ''paragraph'', Some ''table_cell''}"

definition is_loop :: "mapping \<Rightarrow> bool" where
  "is_loop m \<longleftrightarrow> mapping_type m = Some ''table_loop''"


section \<open>Example data\<close>

text \<open>A dict with no key set.\<close>

definition empty_mapping :: mapping where
  "empty_mapping =
     \<lparr>mapping_type = None, label = None, paragraph_index = None, table_index = None,
      row_index = None, col_index = None, original_text = None, required = None,
      field_type = None, data_row_index = None, loop_variable = None, cell_labels = None\<rparr>"

definition empty_cell_label :: cell_label where
  "empty_cell_label =
     \<lparr>cl_col_index = None, cl_label = None, cl_original_text = None, cl_field_type = None\<rparr>"


section \<open>Creating a mapping\<close>

text \<open>
  \<^verbatim>\<open>create_mapping\<close> of the designer service. The database is a parameter:
  \<open>get_template\<close> reads a template and \<open>db_create_mapping\<close> stores the mapping and
  returns the stored row (nothing if it is not found again).
\<close>

definition create_mapping ::
  "(string \<Rightarrow> template option) \<Rightarrow> (string \<Rightarrow> mapping \<Rightarrow> 'row option)
     \<Rightarrow> string \<Rightarrow> mapping \<Rightarrow> 'row option" where
  "create_mapping get_template db_create_mapping template_id mapping_data =
     (case get_template template_id of
        None \<Rightarrow> None
      | Some template \<Rightarrow>
          if tpl_status template = ''published'' then None
          else
            let mtype = get_or (mapping_type mapping_data) ''paragraph'' in
            if mtype \<notin> {''paragraph'', ''table_cell'', ''table_loop''} then None
            else db_create_mapping template_id mapping_data)"

text \<open>
  The loop \<^verbatim>\<open>for f in [...]: if f not in mapping: raise\<close>: the first required key that
  is absent, given each key with whether the mapping has it.
\<close>

fun first_missing :: "(string \<times> bool) list \<Rightarrow> string option" where
  "first_missing [] = None"
| "first_missing ((f, present) # fs) = (if \<not> present then Some f else first_missing fs)"

text \<open>
  \<^verbatim>\<open>create_template_mapping\<close> of the API: the response is either the
  \<^verbatim>\<open>HTTPException\<close> with status 400 and its detail, or the created mapping.
\<close>

datatype 'row response = HTTP_400 string | Mapping_created 'row

definition required_detail :: "string \<Rightarrow> string \<Rightarrow> string" where
  "required_detail f kind = [CHR 0x27] @ f @ [CHR 0x27] @ '' is required for '' @ kind @ '' mapping''"

definition create_template_mapping ::
  "(string \<Rightarrow> template option) \<Rightarrow> (string \<Rightarrow> mapping \<Rightarrow> 'row option)
     \<Rightarrow> string \<Rightarrow> mapping \<Rightarrow> 'row response" where
  "create_template_mapping get_template db_create_mapping template_id mapping =
     (let mtype = get_or (mapping_type mapping) ''paragraph'';
          raised =
            (if mtype = ''paragraph'' then
               map_option (\<lambda>f. required_detail f ''paragraph'')
                 (first_missing [(''paragraph_index'', paragraph_index mapping \<noteq> None),
                                 (''original_text'', original_text mapping \<noteq> None),
                                 (''label'', label mapping \<noteq> None)])
             else if mtype = ''table_cell'' then
               map_option (\<lambda>f. required_detail f ''table_cell'')
                 (first_missing [(''table_index'', table_index mapping \<noteq> None),
                                 (''row_index'', row_index mapping \<noteq> None),
                                 (''col_index'', col_index mapping \<noteq> None),
                                 (''original_text'', original_text mapping \<noteq> None),
                                 (''label'', label mapping \<noteq> None)])
             else if mtype = ''table_loop'' then
               map_option (\<lambda>f. required_detail f ''table_loop'')
                 (first_missing [(''table_index'', table_index mapping \<noteq> None),
                                 (''data_row_index'', data_row_index mapping \<noteq> None),
                                 (''loop_variable'', loop_variable mapping \<noteq> None),
                                 (''cell_labels'', cell_labels mapping \<noteq> None)])
             else Some (''Unknown mapping_type: '' @ mtype))
      in case raised of
           Some detail \<Rightarrow> HTTP_400 detail
         | None \<Rightarrow>
             (case create_mapping get_template db_create_mapping template_id mapping of
                None \<Rightarrow> HTTP_400 ''Cannot create mapping (template not found or published)''
              | Some result \<Rightarrow> Mapping_created result))"

text \<open>
  The conditions the validation property is stated in: the variant tag is one of the three
  recognised ones; every key required by the variant is present; and the further
  conditions of the registry contract (an empty \<^verbatim>\<open>original_text\<close> on a scalar variant,
  an empty \<^verbatim>\<open>cell_labels\<close> or a repeated \<^verbatim>\<open>col_index\<close> on a loop variant).
\<close>

definition recognized :: "mapping \<Rightarrow> bool" where
  "recognized m \<longleftrightarrow> is_scalar m \<or> is_loop m"

definition required_present :: "mapping \<Rightarrow> bool" where
  "required_present m \<longleftrightarrow>
     (mapping_type m \<in> {None, Some ''paragraph''} \<longrightarrow>
        paragraph_index m \<noteq> None \<and> original_text m \<noteq> None \<and> label m \<noteq> None) \<and>
     (mapping_type m = Some ''table_cell'' \<longrightarrow>
        table_index m \<noteq> None \<and> row_index m \<noteq> None \<and> col_index m \<noteq> None
          \<and> original_text m \<noteq> None \<and> label m \<noteq> None) \<and>
     (mapping_type m = Some ''table_loop'' \<longrightarrow>
        table_index m \<noteq> None \<and> data_row_index m \<noteq> None \<and> loop_variable m \<noteq> None
          \<and> cell_labels m \<noteq> None)"

definition empty_original_text :: "mapping \<Rightarrow> bool" where
  "empty_original_text m \<longleftrightarrow> is_scalar m \<and> original_text m = Some ''''"

definition bad_cell_labels :: "mapping \<Rightarrow> bool" where
  "bad_cell_labels m \<longleftrightarrow>
     is_loop m \<and> (cell_labels m = Some []
        \<or> \<not> distinct (map cl_col_index (get_or (cell_labels m) [])))"

definition rejected :: "'row response \<Rightarrow> bool" where
  "rejected r \<longleftrightarrow> (\<exists>detail. r = HTTP_400 detail)"

text \<open>
  Three mappings with every required key: a paragraph mapping whose \<^verbatim>\<open>original_text\<close>
  is empty, a loop mapping with no cell labels, and a loop mapping whose two cell labels
  share \<^verbatim>\<open>col_index\<close> 0. The draft template and the store that returns the row it is given
  stand for the database.
\<close>

definition empty_text_mapping :: mapping where
  "empty_text_mapping =
     empty_mapping\<lparr>mapping_type := Some ''paragraph'', paragraph_index := Some 0,
                   original_text := Some '''', label := Some ''x''\<rparr>"

definition no_cells_mapping :: mapping where
  "no_cells_mapping =
     empty_mapping\<lparr>mapping_type := Some ''table_loop'', table_index := Some 0,
                   data_row_index := Some 1, loop_variable := Some ''items'',
                   cell_labels := Some []\<rparr>"

definition same_column_mapping :: mapping where
  "same_column_mapping =
     empty_mapping\<lparr>mapping_type := Some ''table_loop'', table_index := Some 0,
                   data_row_index := Some 1, loop_variable := Some ''items'',
                   cell_labels := Some
                     [empty_cell_label\<lparr>cl_col_index := Some 0, cl_label := Some ''a''\<rparr>,
                      empty_cell_label\<lparr>cl_col_index := Some 0, cl_label := Some ''b''\<rparr>]\<rparr>"

definition draft_template :: "string \<Rightarrow> template option" where
  "draft_template template_id = Some \<lparr>tpl_name = ''invoice.docx'', tpl_status = ''draft''\<rparr>"

definition store_row :: "string \<Rightarrow> mapping \<Rightarrow> mapping option" where
  "store_row template_id mapping_data = Some mapping_data"

section \<open>Schema derivation\<close>

text \<open>
  \<^verbatim>\<open>get_template_schema\<close> reads the mappings of a template from the mapping table, through
  \<^verbatim>\<open>list_mappings\<close>, that is \<^verbatim>\<open>db_list_mappings\<close>. Each of them is \<^verbatim>\<open>dict(r)\<close> for a
  row \<^verbatim>\<open>r\<close> of \<^verbatim>\<open>SELECT *\<close>: every column is a key of the dict, and a column that is
  \<^verbatim>\<open>NULL\<close> holds \<^verbatim>\<open>None\<close>. A row is modelled as a record with one field per column
  written from the mapping data, \<open>None\<close> standing for the value \<^verbatim>\<open>None\<close>: on a row
  \<^verbatim>\<open>mapping.get(key, default)\<close> never takes its default and \<^verbatim>\<open>mapping[key]\<close> never
  raises. (The columns \<^verbatim>\<open>id\<close>, \<^verbatim>\<open>template_id\<close> and \<^verbatim>\<open>created_at\<close> are not read
  and are left out; \<^verbatim>\<open>required\<close> is kept as a boolean.)
\<close>

record mapping_row =
  row_mapping_type :: "string option"
  row_label :: "string option"
  row_paragraph_index :: "int option"
  row_table_index :: "int option"
  row_row_index :: "int option"
  row_col_index :: "int option"
  row_original_text :: "string option"
  row_required :: "bool option"
  row_field_type :: "string option"
  row_data_row_index :: "int option"
  row_loop_variable :: "string option"
  row_cell_labels :: "cell_label list option"

text \<open>
  The row that \<^verbatim>\<open>db_create_mapping\<close> inserts for the mapping data of a request, as
  \<^verbatim>\<open>db_list_mappings\<close> reads it back. The parameters of the \<^verbatim>\<open>INSERT\<close> are
  \<^verbatim>\<open>mapping_data.get(key)\<close>, with a default for \<^verbatim>\<open>mapping_type\<close>, \<^verbatim>\<open>required\<close>
  and \<^verbatim>\<open>field_type\<close>. For \<^verbatim>\<open>cell_labels\<close> it is
  \<^verbatim>\<open>json.dumps(...) if mapping_data.get("cell_labels") else None\<close>: an absent and an
  empty list are both stored as \<^verbatim>\<open>NULL\<close>; a stored list is decoded again by
  \<^verbatim>\<open>json.loads\<close> on reading.
\<close>

definition db_row :: "mapping \<Rightarrow> mapping_row" where
  "db_row mapping_data =
     \<lparr>row_mapping_type = Some (get_or (mapping_type mapping_data) ''paragraph''),
      row_label = label mapping_data,
      row_paragraph_index = paragraph_index mapping_data,
      row_table_index = table_index mapping_data,
      row_row_index = row_index mapping_data,
      row_col_index = col_index mapping_data,
      row_original_text = original_text mapping_data,
      row_required = Some (get_or (required mapping_data) True),
      row_field_type = Some (get_or (field_type mapping_data) ''string''),
      row_data_row_index = data_row_index mapping_data,
      row_loop_variable = loop_variable mapping_data,
      row_cell_labels =
        (if get_or (cell_labels mapping_data) [] \<noteq> [] then cell_labels mapping_data else None)\<rparr>"

text \<open>
  The dicts \<^verbatim>\<open>get_template_schema\<close> builds: a field of the schema (the key
  \<^verbatim>\<open>sub_fields\<close> is present for loop fields only) and a sub-field of a loop field. The
  values of a scalar field are those of the row, \<^verbatim>\<open>None\<close> included.
\<close>

record sub_field =
  sf_name :: string
  sf_type :: string
  sf_original_text :: string

record field =
  f_name :: "string option"
  f_type :: "string option"
  f_required :: "bool option"
  f_original_text :: "string option"
  f_sub_fields :: "sub_field list option"

text \<open>
  The inner loop over \<^verbatim>\<open>cell_labels\<close> that builds \<^verbatim>\<open>sub_fields\<close>. The entries are
  the dicts of the request, decoded from the stored JSON.
\<close>

fun build_sub_fields :: "cell_label list \<Rightarrow> sub_field list \<Rightarrow> py_error + sub_field list" where
  "build_sub_fields [] sub_fields = Inr sub_fields"
| "build_sub_fields (cl # cls) sub_fields =
     (case item_of ''label'' (cl_label cl) of
        Inl e \<Rightarrow> Inl e
      | Inr l \<Rightarrow>
          build_sub_fields cls
            (sub_fields @ [\<lparr>sf_name = l,
                            sf_type = get_or (cl_field_type cl) ''string'',
                            sf_original_text = get_or (cl_original_text cl) ''''\<rparr>]))"

text \<open>
  The loop over the mappings, with its two accumulators \<^verbatim>\<open>fields\<close> (here
  \<open>flds\<close>) and \<^verbatim>\<open>seen_labels\<close>. \<^verbatim>\<open>mapping.get("cell_labels", [])\<close> is the value of
  the column; when it is \<^verbatim>\<open>None\<close>, \<^verbatim>\<open>for cl in cell_labels\<close> raises
  \<^verbatim>\<open>TypeError\<close>.
\<close>

fun schema_loop ::
  "mapping_row list \<Rightarrow> field list \<Rightarrow> string option set \<Rightarrow> py_error + field list" where
  "schema_loop [] flds seen_labels = Inr flds"
| "schema_loop (mapping # mappings) flds seen_labels =
     (let mtype = row_mapping_type mapping in
      if mtype = Some ''paragraph'' \<or> mtype = Some ''table_cell'' then
        (let l = row_label mapping in
         if l \<notin> seen_labels
         then schema_loop mappings
                (flds @ [\<lparr>f_name = l,
                             f_type = row_field_type mapping,
                             f_required = row_required mapping,
                             f_original_text = row_original_text mapping,
                             f_sub_fields = None\<rparr>])
                (insert l seen_labels)
         else schema_loop mappings flds seen_labels)
      else if mtype = Some ''table_loop'' then
        (let loop_var = row_loop_variable mapping in
         case row_cell_labels mapping of
           None \<Rightarrow> Inl TypeError
         | Some cls \<Rightarrow>
             (case build_sub_fields cls [] of
                Inl e \<Rightarrow> Inl e
              | Inr sub_fields \<Rightarrow>
                  schema_loop mappings
                    (flds @ [\<lparr>f_name = loop_var,
                                 f_type = Some ''array'',
                                 f_required = Some True,
                                 f_original_text =
                                   Some (''Table loop ('' @ str_of_nat (length sub_fields)
                                           @ '' columns)''),
                                 f_sub_fields = Some sub_fields\<rparr>])
                    seen_labels))
      else schema_loop mappings flds seen_labels)"

text \<open>
  \<^verbatim>\<open>get_template_schema\<close>. The two database reads are parameters: \<open>get_template\<close>
  (nothing when the template does not exist) and \<open>list_mappings\<close> (the rows in
  registry order).
\<close>

record template_schema =
  s_template_id :: string
  s_template_name :: string
  s_status :: string
  s_fields :: "field list"

definition get_template_schema ::
  "(string \<Rightarrow> template option) \<Rightarrow> (string \<Rightarrow> mapping_row list) \<Rightarrow> string
     \<Rightarrow> py_error + template_schema option" where
  "get_template_schema get_template list_mappings template_id =
     (case get_template template_id of
        None \<Rightarrow> Inr None
      | Some template \<Rightarrow>
          (case schema_loop (list_mappings template_id) [] {} of
             Inl e \<Rightarrow> Inl e
           | Inr flds \<Rightarrow>
               Inr (Some \<lparr>s_template_id = template_id,
                          s_template_name = tpl_name template,
                          s_status = tpl_status template,
                          s_fields = flds\<rparr>)))"

text \<open>
  The notions the schema property is stated in: which rows are scalar and which are
  loops, the rows on which the loop over \<^verbatim>\<open>cell_labels\<close> does not raise (the column
  holds a list and every entry has its \<^verbatim>\<open>label\<close>), the field a scalar row and a loop
  row stand for, and the contribution of a list of rows given the labels already seen.
\<close>

definition is_scalar_row :: "mapping_row \<Rightarrow> bool" where
  "is_scalar_row r \<longleftrightarrow> row_mapping_type r \<in> {Some ''paragraph'', Some ''table_cell''}"

definition is_loop_row :: "mapping_row \<Rightarrow> bool" where
  "is_loop_row r \<longleftrightarrow> row_mapping_type r = Some ''table_loop''"

definition schema_ready :: "mapping_row \<Rightarrow> bool" where
  "schema_ready r \<longleftrightarrow>
     (is_loop_row r \<longrightarrow>
        (\<exists>cls. row_cell_labels r = Some cls \<and> (\<forall>cl \<in> set cls. cl_label cl \<noteq> None)))"

definition scalar_field :: "mapping_row \<Rightarrow> field" where
  "scalar_field r =
     \<lparr>f_name = row_label r,
      f_type = row_field_type r,
      f_required = row_required r,
      f_original_text = row_original_text r,
      f_sub_fields = None\<rparr>"

definition sub_field_of :: "cell_label \<Rightarrow> sub_field" where
  "sub_field_of cl =
     \<lparr>sf_name = the (cl_label cl),
      sf_type = get_or (cl_field_type cl) ''string'',
      sf_original_text = get_or (cl_original_text cl) ''''\<rparr>"

definition loop_field :: "mapping_row \<Rightarrow> field" where
  "loop_field r =
     \<lparr>f_name = row_loop_variable r,
      f_type = Some ''array'',
      f_required = Some True,
      f_original_text =
        Some (''Table loop ('' @ str_of_nat (length (get_or (row_cell_labels r) []))
                @ '' columns)''),
      f_sub_fields = Some (map sub_field_of (get_or (row_cell_labels r) []))\<rparr>"

fun contribution :: "mapping_row list \<Rightarrow> string option set \<Rightarrow> field list" where
  "contribution [] seen = []"
| "contribution (r # rs) seen =
     (if is_scalar_row r then
        (if row_label r \<in> seen then contribution rs seen
         else scalar_field r # contribution rs (insert (row_label r) seen))
      else if is_loop_row r then loop_field r # contribution rs seen
      else contribution rs seen)"

text \<open>
  A small registry, as stored: two scalar mappings that share the label \<open>amount\<close> and
  one loop mapping over two columns.
\<close>

definition example_registry :: "mapping_row list" where
  "example_registry =
     map db_row
     [empty_mapping\<lparr>mapping_type := Some ''paragraph'', paragraph_index := Some 2,
                    original_text := Some ''5.000'', label := Some ''amount''\<rparr>,
      empty_mapping\<lparr>mapping_type := Some ''table_cell'', table_index := Some 0,
                    row_index := Some 1, col_index := Some 2, original_text := Some ''7.000'',
                    label := Some ''amount'', required := Some False,
                    field_type := Some ''currency''\<rparr>,
      empty_mapping\<lparr>mapping_type := Some ''table_loop'', table_index := Some 0,
                    data_row_index := Some 1, loop_variable := Some ''items'',
                    cell_labels := Some
                      [empty_cell_label\<lparr>cl_col_index := Some 0, cl_label := Some ''stt'',
                                        cl_original_text := Some ''1''\<rparr>,
                       empty_cell_label\<lparr>cl_col_index := Some 1, cl_label := Some ''description''\<rparr>]\<rparr>]"

section \<open>Materialization: applying the mappings to a document\<close>

text \<open>
  The document as \<^verbatim>\<open>apply_mappings_to_document\<close> reads it through python-docx: the body
  paragraphs (\<^verbatim>\<open>doc.paragraphs\<close>) and the tables (\<^verbatim>\<open>doc.tables\<close>), a table being its
  rows, a row its cells (\<^verbatim>\<open>row.cells\<close>) and a cell its paragraphs. Cells are taken to be
  distinct objects (no merged cells). Writing the file (\<^verbatim>\<open>doc.save\<close>) is left out: the
  document returned is the one saved.
\<close>

type_synonym table_row = "cell list"

type_synonym docx_table = "table_row list"

record document =
  paragraphs :: "para list"
  tables :: "docx_table list"

text \<open>A \<^verbatim>\<open>for\<close> loop over a list whose body may raise: the first error ends it.\<close>

fun for_each :: "('s \<Rightarrow> 'a \<Rightarrow> py_error + 's) \<Rightarrow> 's \<Rightarrow> 'a list \<Rightarrow> py_error + 's" where
  "for_each body s [] = Inr s"
| "for_each body s (x # xs) =
     (case body s x of Inl e \<Rightarrow> Inl e | Inr s' \<Rightarrow> for_each body s' xs)"

definition set_cell :: "document \<Rightarrow> nat \<Rightarrow> nat \<Rightarrow> nat \<Rightarrow> cell \<Rightarrow> document" where
  "set_cell doc t r c new_cell =
     doc\<lparr>tables := (tables doc)[t := (tables doc ! t)[r := (tables doc ! t ! r)[c := new_cell]]]\<rparr>"

text \<open>The body of the loop over \<^verbatim>\<open>para_mappings\<close>.\<close>

definition apply_paragraph_mapping :: "document \<Rightarrow> mapping \<Rightarrow> py_error + document" where
  "apply_paragraph_mapping doc m =
     (let para_idx = get_or (paragraph_index m) 0 in
      case item_of ''original_text'' (original_text m) of
        Inl e \<Rightarrow> Inl e
      | Inr otext \<Rightarrow>
      (case item_of ''label'' (label m) of
        Inl e \<Rightarrow> Inl e
      | Inr lbl \<Rightarrow>
          let jinja_var = ''{{'' @ lbl @ ''}}'' in
          if para_idx < int (length (paragraphs doc)) then
            (case py_pos (length (paragraphs doc)) para_idx of
               None \<Rightarrow> Inl IndexError
             | Some k \<Rightarrow>
                 Inr (doc\<lparr>paragraphs := (paragraphs doc)
                        [k := snd (find_and_replace_in_paragraph (paragraphs doc ! k)
                                     otext jinja_var)]\<rparr>))
          else Inr doc))"

text \<open>The body of the loop over \<^verbatim>\<open>cell_mappings\<close>.\<close>

definition apply_cell_mapping :: "document \<Rightarrow> mapping \<Rightarrow> py_error + document" where
  "apply_cell_mapping doc m =
     (let table_idx = get_or (table_index m) 0;
          row_idx = get_or (row_index m) 0;
          col_idx = get_or (col_index m) 0 in
      case item_of ''original_text'' (original_text m) of
        Inl e \<Rightarrow> Inl e
      | Inr otext \<Rightarrow>
      (case item_of ''label'' (label m) of
        Inl e \<Rightarrow> Inl e
      | Inr lbl \<Rightarrow>
          if table_idx < int (length (tables doc)) then
            (case py_pos (length (tables doc)) table_idx of
               None \<Rightarrow> Inl IndexError
             | Some t \<Rightarrow>
                 let table = tables doc ! t in
                 if row_idx < int (length table) then
                   (case py_pos (length table) row_idx of
                      None \<Rightarrow> Inl IndexError
                    | Some r \<Rightarrow>
                        if col_idx < int (length (table ! r)) then
                          (case py_pos (length (table ! r)) col_idx of
                             None \<Rightarrow> Inl IndexError
                           | Some c \<Rightarrow>
                               let jinja_var = ''{{'' @ lbl @ ''}}'' in
                               Inr (set_cell doc t r c
                                      (snd (find_and_replace_in_cell (table ! r ! c)
                                              otext jinja_var))))
                        else Inr doc)
                 else Inr doc)
          else Inr doc))"

text \<open>
  The branch of the loop mapping for a cell label without \<^verbatim>\<open>original_text\<close>: in every
  paragraph of the cell that has runs (\<^verbatim>\<open>para.runs\<close>), the first run receives the
  marker and the others are emptied.
\<close>

definition overwrite_runs :: "string \<Rightarrow> para \<Rightarrow> para" where
  "overwrite_runs marker para =
     (case paragraph_runs para of
        [] \<Rightarrow> para
      | r # rs \<Rightarrow>
          put_runs para (r\<lparr>run_text := marker\<rparr> # map (\<lambda>run. run\<lparr>run_text := []\<rparr>) rs))"

definition loop_marker :: "string \<Rightarrow> string \<Rightarrow> string" where
  "loop_marker loop_var lbl = ''__LOOP__'' @ loop_var @ ''__'' @ lbl @ ''__''"

text \<open>The body of the loop over \<^verbatim>\<open>cell_labels\<close>, for the row at position \<open>r\<close> of table \<open>t\<close>.\<close>

definition apply_cell_label ::
  "string \<Rightarrow> nat \<Rightarrow> nat \<Rightarrow> document \<Rightarrow> cell_label \<Rightarrow> py_error + document" where
  "apply_cell_label loop_var t r doc cell_map =
     (case item_of ''col_index'' (cl_col_index cell_map) of
        Inl e \<Rightarrow> Inl e
      | Inr col \<Rightarrow>
      (case item_of ''label'' (cl_label cell_map) of
        Inl e \<Rightarrow> Inl e
      | Inr lbl \<Rightarrow>
          let original = get_or (cl_original_text cell_map) '''';
              data_row = tables doc ! t ! r in
          if col < int (length data_row) then
            (case py_pos (length data_row) col of
               None \<Rightarrow> Inl IndexError
             | Some c \<Rightarrow>
                 let marker = loop_marker loop_var lbl in
                 if original \<noteq> []
                 then Inr (set_cell doc t r c
                             (snd (find_and_replace_in_cell (data_row ! c) original marker)))
                 else Inr (set_cell doc t r c (map (overwrite_runs marker) (data_row ! c))))
          else Inr doc))"

text \<open>The body of the loop over \<^verbatim>\<open>loop_mappings\<close>.\<close>

definition apply_loop_mapping :: "document \<Rightarrow> mapping \<Rightarrow> py_error + document" where
  "apply_loop_mapping doc m =
     (let table_idx = get_or (table_index m) 0;
          loop_var = get_or (loop_variable m) ''items'';
          data_row_idx = get_or (data_row_index m) 1;
          cls = get_or (cell_labels m) [] in
      if table_idx < int (length (tables doc)) then
        (case py_pos (length (tables doc)) table_idx of
           None \<Rightarrow> Inl IndexError
         | Some t \<Rightarrow>
             let table = tables doc ! t in
             if data_row_idx < int (length table) then
               (case py_pos (length table) data_row_idx of
                  None \<Rightarrow> Inl IndexError
                | Some r \<Rightarrow> for_each (apply_cell_label loop_var t r) doc cls)
             else Inr doc)
      else Inr doc)"

text \<open>
  \<^verbatim>\<open>apply_mappings_to_document\<close>: the three passes in the source's order, then
  \<^verbatim>\<open>return True\<close>. An exception raised on the way is the result \<open>Inl\<close>.
\<close>

definition apply_mappings_to_document ::
  "document \<Rightarrow> mapping list \<Rightarrow> py_error + (bool \<times> document)" where
  "apply_mappings_to_document doc mappings =
     (let para_mappings =
            filter (\<lambda>m. get_or (mapping_type m) ''paragraph'' = ''paragraph'') mappings;
          cell_mappings = filter (\<lambda>m. mapping_type m = Some ''table_cell'') mappings;
          loop_mappings = filter (\<lambda>m. mapping_type m = Some ''table_loop'') mappings in
      case for_each apply_paragraph_mapping doc para_mappings of
        Inl e \<Rightarrow> Inl e
      | Inr doc1 \<Rightarrow>
      (case for_each apply_cell_mapping doc1 cell_mappings of
        Inl e \<Rightarrow> Inl e
      | Inr doc2 \<Rightarrow>
      (case for_each apply_loop_mapping doc2 loop_mappings of
        Inl e \<Rightarrow> Inl e
      | Inr doc3 \<Rightarrow> Inr (True, doc3))))"

text \<open>
  A document with the single paragraph \<open>''Dear Nguyen''\<close> in one run and a one-cell table,
  a paragraph mapping whose text occurs in it and one whose text does not.
\<close>

definition letter :: document where
  "letter = \<lparr>paragraphs = [[Run_item (plain_run ''Dear Nguyen'')]],
             tables = [[[[[Run_item (plain_run ''1'')]]],
                        [[[Run_item (plain_run ''5.000''), Run_item (plain_run ''VND'')]]]]]\<rparr>"

definition name_mapping :: mapping where
  "name_mapping =
     empty_mapping\<lparr>mapping_type := Some ''paragraph'', paragraph_index := Some 0,
                   original_text := Some ''Nguyen'', label := Some ''customer_name''\<rparr>"

definition stale_mapping :: mapping where
  "stale_mapping =
     empty_mapping\<lparr>mapping_type := Some ''paragraph'', paragraph_index := Some 0,
                   original_text := Some ''Tran'', label := Some ''customer_name''\<rparr>"

section \<open>Loop expansion\<close>

text \<open>
  \<^verbatim>\<open>expand_table_loops\<close> works on the lxml elements under python-docx. An element has
  a tag, an optional text and children; a table is the list of its row elements
  (\<^verbatim>\<open>table.rows\<close>, the \<^verbatim>\<open>w:tr\<close> children of the table element, among which
  \<^verbatim>\<open>addnext\<close> and \<^verbatim>\<open>remove\<close> act) and the document is the list of its tables.
  \<open>w_t\<close> is the qualified tag \<^verbatim>\<open>qn('w:t')\<close> of a text leaf.
\<close>

datatype xml = Elem (xml_tag: string) (xml_text: "string option") (xml_children: "xml list")

type_synonym xml_table = "xml list"

type_synonym xml_document = "xml_table list"

definition w_t :: string where
  "w_t = ''{http://schemas.openxmlformats.org/wordprocessingml/2006/main}t''"

text \<open>
  The render data: a loop variable maps to its list of items. An item is a dict from field
  labels to scalar values, or a value that is not a dict. \<open>py_str\<close> is \<^verbatim>\<open>str\<close> on the
  scalars (floating-point numbers and nested containers are outside the model).
\<close>

datatype scalar = PyNone | PyBool bool | PyInt int | PyStr string

datatype item = DictItem "(string \<times> scalar) list" | OtherItem scalar

fun py_str :: "scalar \<Rightarrow> string" where
  "py_str PyNone = ''None''"
| "py_str (PyBool b) = (if b then ''True'' else ''False'')"
| "py_str (PyInt i) = str_of_int i"
| "py_str (PyStr s) = s"

text \<open>
  \<^verbatim>\<open>if not isinstance(item, dict): item = {"value": str(item)}\<close>, and
  \<^verbatim>\<open>str(item.get(label, ''))\<close>.
\<close>

fun as_dict :: "item \<Rightarrow> (string \<times> scalar) list" where
  "as_dict (DictItem kvs) = kvs"
| "as_dict (OtherItem v) = [(''value'', PyStr (py_str v))]"

definition field_value :: "(string \<times> scalar) list \<Rightarrow> string \<Rightarrow> string" where
  "field_value it lbl = py_str (get_or (map_of it lbl) (PyStr ''''))"

text \<open>
  \<^verbatim>\<open>s.replace(old, new)\<close>: scanning from the left, every occurrence of \<open>old\<close> found is
  replaced and the scan goes on behind it; for an empty \<open>old\<close> Python inserts \<open>new\<close>
  before every character and at the end.
\<close>

function replace_scan :: "string \<Rightarrow> string \<Rightarrow> string \<Rightarrow> string" where
  "replace_scan old new [] = []"
| "replace_scan old new (c # s) =
     (if old \<noteq> [] \<and> starts_with (c # s) old
      then new @ replace_scan old new (drop (length old) (c # s))
      else c # replace_scan old new s)"
  by pat_completeness auto

termination
  by (relation "measure (\<lambda>(old, new, s). length s)") auto

definition py_replace :: "string \<Rightarrow> string \<Rightarrow> string \<Rightarrow> string" where
  "py_replace old new s =
     (if old = [] then new @ concat (map (\<lambda>c. c # new) s) else replace_scan old new s)"

text \<open>
  The loop \<^verbatim>\<open>for cl in cell_labels\<close> on the text of one leaf: each entry whose marker
  occurs in the current text replaces it everywhere by the item's value.
\<close>

fun replace_markers ::
  "string \<Rightarrow> (string \<times> scalar) list \<Rightarrow> cell_label list \<Rightarrow> string \<Rightarrow> py_error + string" where
  "replace_markers loop_var it [] txt = Inr txt"
| "replace_markers loop_var it (cl # cls) txt =
     (case item_of ''label'' (cl_label cl) of
        Inl e \<Rightarrow> Inl e
      | Inr lbl \<Rightarrow>
          let marker = loop_marker loop_var lbl in
          if str_find txt marker \<noteq> None
          then replace_markers loop_var it cls (py_replace marker (field_value it lbl) txt)
          else replace_markers loop_var it cls txt)"

text \<open>
  The loop \<^verbatim>\<open>for t_elem in new_tr.iter(qn('w:t'))\<close>: the element and its descendants
  in document order; a \<^verbatim>\<open>w:t\<close> element with a non-empty text has its text rewritten.
\<close>

fun fill_elem ::
    "string \<Rightarrow> (string \<times> scalar) list \<Rightarrow> cell_label list \<Rightarrow> xml \<Rightarrow> py_error + xml"
  and fill_elems ::
    "string \<Rightarrow> (string \<times> scalar) list \<Rightarrow> cell_label list \<Rightarrow> xml list \<Rightarrow> py_error + xml list"
where
  "fill_elem loop_var it cls (Elem tg tx ch) =
     (case (if tg = w_t
            then (case tx of
                    None \<Rightarrow> Inr None
                  | Some t \<Rightarrow>
                      if t = [] then Inr (Some t)
                      else map_sum id Some (replace_markers loop_var it cls t))
            else Inr tx) of
        Inl e \<Rightarrow> Inl e
      | Inr tx' \<Rightarrow>
          (case fill_elems loop_var it cls ch of
             Inl e \<Rightarrow> Inl e
           | Inr ch' \<Rightarrow> Inr (Elem tg tx' ch')))"
| "fill_elems loop_var it cls [] = Inr []"
| "fill_elems loop_var it cls (x # xs) =
     (case fill_elem loop_var it cls x of
        Inl e \<Rightarrow> Inl e
      | Inr x' \<Rightarrow>
          (case fill_elems loop_var it cls xs of
             Inl e \<Rightarrow> Inl e
           | Inr xs' \<Rightarrow> Inr (x' # xs')))"

text \<open>
  The loop \<^verbatim>\<open>for item_idx, item in enumerate(items)\<close>: one deep copy of the template row
  per item, its markers replaced, collected in \<^verbatim>\<open>new_rows\<close>.
\<close>

fun clone_rows :: "string \<Rightarrow> cell_label list \<Rightarrow> xml \<Rightarrow> item list \<Rightarrow> py_error + xml list" where
  "clone_rows loop_var cls template_tr [] = Inr []"
| "clone_rows loop_var cls template_tr (item # items) =
     (case fill_elem loop_var (as_dict item) cls template_tr of
        Inl e \<Rightarrow> Inl e
      | Inr new_tr \<Rightarrow>
          (case clone_rows loop_var cls template_tr items of
             Inl e \<Rightarrow> Inl e
           | Inr new_rows \<Rightarrow> Inr (new_tr # new_rows)))"

text \<open>
  \<^verbatim>\<open>template_tr.addnext(new_tr)\<close> and \<^verbatim>\<open>parent.remove(template_tr)\<close>, the template row
  being at position \<open>r\<close> of the rows.
\<close>

definition addnext :: "xml list \<Rightarrow> nat \<Rightarrow> xml \<Rightarrow> xml list" where
  "addnext rows r new_tr = take (Suc r) rows @ [new_tr] @ drop (Suc r) rows"

definition remove_row :: "xml list \<Rightarrow> nat \<Rightarrow> xml list" where
  "remove_row rows r = take r rows @ drop (Suc r) rows"

text \<open>The body of the loop over \<^verbatim>\<open>loop_mappings\<close>.\<close>

definition expand_loop_mapping ::
  "(string \<Rightarrow> item list option) \<Rightarrow> xml_document \<Rightarrow> mapping \<Rightarrow> py_error + xml_document" where
  "expand_loop_mapping data doc m =
     (let table_idx = get_or (table_index m) 0;
          loop_var = get_or (loop_variable m) ''items'';
          data_row_idx = get_or (data_row_index m) 1;
          cls = get_or (cell_labels m) [];
          items = get_or (data loop_var) [] in
      if items = [] \<or> table_idx \<ge> int (length doc) then Inr doc
      else
        (case py_pos (length doc) table_idx of
           None \<Rightarrow> Inl IndexError
         | Some t \<Rightarrow>
             let table = doc ! t in
             if data_row_idx \<ge> int (length table) then Inr doc
             else
               (case py_pos (length table) data_row_idx of
                  None \<Rightarrow> Inl IndexError
                | Some r \<Rightarrow>
                    (case clone_rows loop_var cls (table ! r) items of
                       Inl e \<Rightarrow> Inl e
                     | Inr new_rows \<Rightarrow>
                         Inr (doc[t := remove_row
                                (foldl (\<lambda>rows new_tr. addnext rows r new_tr) table (rev new_rows))
                                r])))))"

text \<open>\<^verbatim>\<open>expand_table_loops\<close>; the document returned is the one saved.\<close>

definition expand_table_loops ::
  "xml_document \<Rightarrow> (string \<Rightarrow> item list option) \<Rightarrow> mapping list \<Rightarrow> py_error + xml_document" where
  "expand_table_loops doc data mappings =
     for_each (expand_loop_mapping data) doc
       (filter (\<lambda>m. mapping_type m = Some ''table_loop'') mappings)"

text \<open>
  Notions the expansion properties are stated in: an element with all texts erased (two
  elements with the same skeleton differ in texts only), the texts of the \<^verbatim>\<open>w:t\<close>
  leaves of an element in document order, an element with a function applied to the texts
  of its \<^verbatim>\<open>w:t\<close> leaves, pieces joined by a separator, and the passes of
  \<open>replace_markers\<close> written as one fold.
\<close>

fun skeleton :: "xml \<Rightarrow> xml" where
  "skeleton (Elem tg tx ch) = Elem tg None (map skeleton ch)"

fun leaf_texts :: "xml \<Rightarrow> string option list" where
  "leaf_texts (Elem tg tx ch) = (if tg = w_t then [tx] else []) @ concat (map leaf_texts ch)"

fun retext :: "(string \<Rightarrow> string) \<Rightarrow> xml \<Rightarrow> xml" where
  "retext f (Elem tg tx ch) =
     Elem tg (if tg = w_t then map_option f tx else tx) (map (retext f) ch)"

fun join :: "string \<Rightarrow> string list \<Rightarrow> string" where
  "join sep [] = []"
| "join sep [p] = p"
| "join sep (p # q # ps) = p @ sep @ join sep (q # ps)"

definition resolve :: "string \<Rightarrow> (string \<times> scalar) list \<Rightarrow> cell_label list \<Rightarrow> string \<Rightarrow> string" where
  "resolve loop_var it cls txt =
     foldl (\<lambda>t cl. py_replace (loop_marker loop_var (the (cl_label cl)))
                     (field_value it (the (cl_label cl))) t) txt cls"

text \<open>
  A one-table document whose second row is a template row with two marked cells, the
  mapping that marks it, and render data with two items.
\<close>

definition text_cell :: "string \<Rightarrow> xml" where
  "text_cell s = Elem ''tc'' None [Elem ''p'' None [Elem ''r'' None [Elem w_t (Some s) []]]]"

definition invoice_doc :: xml_document where
  "invoice_doc =
     [[Elem ''tr'' None [text_cell ''No'', text_cell ''Item''],
       Elem ''tr'' None [text_cell ''__LOOP__items__stt__'',
                         text_cell ''x __LOOP__items__name__ / __LOOP__items__name__''],
       Elem ''tr'' None [text_cell ''Total'', text_cell ''9'']]]"

definition items_mapping :: mapping where
  "items_mapping =
     empty_mapping\<lparr>mapping_type := Some ''table_loop'', table_index := Some 0,
                   data_row_index := Some 1, loop_variable := Some ''items'',
                   cell_labels := Some
                     [empty_cell_label\<lparr>cl_col_index := Some 0, cl_label := Some ''stt''\<rparr>,
                      empty_cell_label\<lparr>cl_col_index := Some 1, cl_label := Some ''name''\<rparr>]\<rparr>"

definition invoice_data :: "string \<Rightarrow> item list option" where
  "invoice_data = [''items'' \<mapsto> [DictItem [(''stt'', PyInt 1), (''name'', PyStr ''tea'')],
                                   DictItem [(''stt'', PyInt 2)]]]"

text \<open>
  A one-row table whose only cell holds the marker of the label \<open>name\<close>, the mapping
  that loops over that row, and data whose single item gives \<open>name\<close> the marker itself
  as its value.
\<close>

definition echo_doc :: xml_document where
  "echo_doc = [[Elem ''tr'' None [text_cell ''__LOOP__items__name__'']]]"

definition echo_mapping :: mapping where
  "echo_mapping =
     empty_mapping\<lparr>mapping_type := Some ''table_loop'', table_index := Some 0,
                   data_row_index := Some 0, loop_variable := Some ''items'',
                   cell_labels := Some
                     [empty_cell_label\<lparr>cl_col_index := Some 0, cl_label := Some ''name''\<rparr>]\<rparr>"

definition echo_data :: "string \<Rightarrow> item list option" where
  "echo_data = [''items'' \<mapsto> [DictItem [(''name'', PyStr ''__LOOP__items__name__'')]]]"

section \<open>Substring search finds the leftmost occurrence\<close>

lemma starts_with_iff: "starts_with s t \<longleftrightarrow> take (length t) s = t"
  by (induction s t rule: starts_with.induct) auto

lemma occurs_at_0: "occurs_at s t 0 \<longleftrightarrow> starts_with s t"
  by (simp add: occurs_at_def starts_with_iff)

lemma occurs_at_Suc: "occurs_at (c # s) t (Suc j) \<longleftrightarrow> occurs_at s t j"
  by (simp add: occurs_at_def)

lemma occurs_at_Nil: "occurs_at [] t j \<longleftrightarrow> t = [] \<and> j = 0"
  by (auto simp: occurs_at_def)

lemma str_find_Some: "str_find s t = Some i \<longleftrightarrow> first_occurrence s t i"
proof (induction s arbitrary: i)
  case Nil
  show ?case by (auto simp: first_occurrence_def occurs_at_Nil)
next
  case (Cons c s)
  show ?case
  proof (cases "starts_with (c # s) t")
    case True
    then have "occurs_at (c # s) t 0" by (simp add: occurs_at_0)
    then have "first_occurrence (c # s) t i \<longleftrightarrow> i = 0"
      by (auto simp: first_occurrence_def)
    with True show ?thesis by auto
  next
    case False
    then have no0: "\<not> occurs_at (c # s) t 0" by (simp add: occurs_at_0)
    show ?thesis
    proof (cases i)
      case 0
      with False no0 show ?thesis by (auto simp: first_occurrence_def)
    next
      case (Suc k)
      have "(\<forall>j<Suc k. \<not> occurs_at (c # s) t j) \<longleftrightarrow> (\<forall>j<k. \<not> occurs_at s t j)"
        using no0 by (auto simp: less_Suc_eq_0_disj occurs_at_Suc)
      then have "first_occurrence (c # s) t (Suc k) \<longleftrightarrow> first_occurrence s t k"
        by (simp add: first_occurrence_def occurs_at_Suc)
      with False Suc Cons.IH [of k] show ?thesis by auto
    qed
  qed
qed

lemma str_find_None: "str_find s t = None \<longleftrightarrow> (\<forall>j. \<not> occurs_at s t j)"
proof
  assume n: "str_find s t = None"
  show "\<forall>j. \<not> occurs_at s t j"
  proof (rule ccontr)
    assume "\<not> (\<forall>j. \<not> occurs_at s t j)"
    then obtain j where "occurs_at s t j" by blast
    then have "first_occurrence s t (LEAST j. occurs_at s t j)"
      unfolding first_occurrence_def by (metis LeastI not_less_Least)
    with n show False by (simp add: str_find_Some [symmetric])
  qed
next
  assume a: "\<forall>j. \<not> occurs_at s t j"
  show "str_find s t = None"
  proof (cases "str_find s t")
    case (Some i)
    with a show ?thesis by (simp add: str_find_Some first_occurrence_def)
  qed simp
qed

lemma occurs_at_iff_split:
  "occurs_at s t j \<longleftrightarrow> (\<exists>pre post. s = pre @ t @ post \<and> length pre = j)"
proof
  assume a: "occurs_at s t j"
  have "s = take j s @ take (length t) (drop j s) @ drop (length t) (drop j s)"
    by (simp only: append_take_drop_id)
  then have "s = take j s @ t @ drop (length t) (drop j s)"
    using a by (simp add: occurs_at_def)
  moreover have "length (take j s) = j" using a by (simp add: occurs_at_def)
  ultimately show "\<exists>pre post. s = pre @ t @ post \<and> length pre = j" by blast
next
  assume "\<exists>pre post. s = pre @ t @ post \<and> length pre = j"
  then show "occurs_at s t j" by (auto simp: occurs_at_def)
qed

lemma str_find_None_iff: "str_find s t = None \<longleftrightarrow> \<not> (\<exists>pre post. s = pre @ t @ post)"
  by (auto simp: str_find_None occurs_at_iff_split)

lemma occurs_at_bound: "occurs_at full t s \<Longrightarrow> s + length t \<le> length full"
proof -
  assume "occurs_at full t s"
  then have "length (take (length t) (drop s full)) = length t" and "s \<le> length full"
    by (simp_all add: occurs_at_def)
  then show ?thesis by simp
qed

section \<open>The runs of a paragraph\<close>

lemma paragraph_runs_put_runs:
  "length rs = length (paragraph_runs p) \<Longrightarrow> paragraph_runs (put_runs p rs) = rs"
  by (induction p rs rule: put_runs.induct) auto

lemma put_runs_paragraph_runs [simp]: "put_runs p (paragraph_runs p) = p"
  by (induction p "paragraph_runs p" rule: put_runs.induct) auto

lemma paragraph_runs_map_Run_item [simp]: "paragraph_runs (map Run_item rs) = rs"
  by (induction rs) auto

lemma paragraph_text_map_Run_item [simp]: "paragraph_text (map Run_item rs) = runs_text rs"
  by (induction rs) (auto simp: paragraph_text_def runs_text_def)

lemma text_is_runs_map_Run_item [simp]: "text_is_runs (map Run_item rs)"
  by (simp add: text_is_runs_def)

section \<open>Run positions and the affected runs\<close>

lemma run_start_0 [simp]: "run_start runs 0 = 0"
  by (simp add: run_start_def runs_text_def)

lemma run_start_Cons_Suc:
  "run_start (r # rs) (Suc i) = length (run_text r) + run_start rs i"
  by (simp add: run_start_def runs_text_def)

lemma run_end_Cons_Suc:
  "run_end (r # rs) (Suc i) = length (run_text r) + run_end rs i"
  by (simp add: run_end_def run_start_Cons_Suc)

lemma run_end_Cons_0: "run_end (r # rs) 0 = length (run_text r)"
  by (simp add: run_end_def)

lemma run_start_Suc: "i < length runs \<Longrightarrow> run_start runs (Suc i) = run_end runs i"
  by (simp add: run_start_def run_end_def runs_text_def take_Suc_conv_app_nth)

lemma run_start_mono: "i \<le> j \<Longrightarrow> run_start runs i \<le> run_start runs j"
proof -
  assume "i \<le> j"
  then have "take j runs = take i runs @ take (j - i) (drop i runs)"
    by (metis le_add_diff_inverse take_add)
  then show ?thesis by (simp add: run_start_def runs_text_def)
qed

lemma run_start_length: "length runs \<le> i \<Longrightarrow> run_start runs i = length (runs_text runs)"
  by (simp add: run_start_def)

lemma build_run_positions_eq:
  "build_run_positions runs p k =
     map (\<lambda>i. (p + run_start runs i, p + run_end runs i, k + i)) [0..<length runs]"
proof (induction runs arbitrary: p k)
  case Nil
  show ?case by simp
next
  case (Cons r rs)
  have "[0..<length (r # rs)] = 0 # map Suc [0..<length rs]"
    by (simp add: upt_conv_Cons map_Suc_upt del: upt_Suc)
  then show ?case
    by (simp add: Cons.IH run_start_Cons_Suc run_end_Cons_Suc run_end_Cons_0 o_def
        add.assoc del: upt_Suc)
qed

lemma filter_upt_interval:
  assumes "a \<le> b" "b \<le> n" "\<And>i. i < n \<Longrightarrow> Q i \<longleftrightarrow> a \<le> i \<and> i < b"
  shows "filter Q [0..<n] = [a..<b]"
proof -
  have "[0..<n] = [0..<a] @ [a..<b] @ [b..<n]"
    using assms(1,2) by (metis le_add_diff_inverse upt_add_eq_append zero_le le_trans)
  moreover have "filter Q [0..<a] = []" using assms by (auto simp: filter_empty_conv)
  moreover have "filter Q [b..<n] = []" using assms by (auto simp: filter_empty_conv)
  moreover have "filter Q [a..<b] = [a..<b]" using assms by (auto simp: filter_id_conv)
  ultimately show ?thesis by simp
qed

lemma take_concat_at:
  assumes "i < length ts" "length (concat (take i ts)) \<le> k"
    "k \<le> length (concat (take i ts)) + length (ts ! i)"
  shows "take k (concat ts) = concat (take i ts) @ take (k - length (concat (take i ts))) (ts ! i)"
    and "drop k (concat ts) = drop (k - length (concat (take i ts))) (ts ! i) @ concat (drop (Suc i) ts)"
proof -
  have "ts = take i ts @ ts ! i # drop (Suc i) ts" using assms(1) by (rule id_take_nth_drop)
  then have c: "concat ts = concat (take i ts) @ ts ! i @ concat (drop (Suc i) ts)"
    by (metis concat.simps(2) concat_append)
  show "take k (concat ts) = concat (take i ts) @ take (k - length (concat (take i ts))) (ts ! i)"
    using assms(2,3) by (subst c) simp
  show "drop k (concat ts) = drop (k - length (concat (take i ts))) (ts ! i) @ concat (drop (Suc i) ts)"
    using assms(2,3) by (subst c) simp
qed

lemma affected_interval:
  assumes se: "s < e" and el: "e \<le> length (runs_text runs)"
  obtains f l where "f \<le> l" "l < length runs"
    "run_start runs f \<le> s" "s < run_end runs f"
    "run_start runs l < e" "e \<le> run_end runs l"
    "\<And>i. i < length runs \<Longrightarrow> (s < run_end runs i \<and> run_start runs i < e) \<longleftrightarrow> f \<le> i \<and> i \<le> l"
proof -
  let ?n = "length runs"
  have npos: "0 < ?n" using se el by (cases runs) (auto simp: runs_text_def)
  define f where "f = (LEAST i. s < run_start runs (Suc i))"
  have ex: "s < run_start runs (Suc (?n - 1))"
    using se el npos by (simp add: run_start_length)
  have f1: "s < run_start runs (Suc f)" unfolding f_def using ex by (rule LeastI)
  have f2: "f \<le> ?n - 1" unfolding f_def using ex by (rule Least_le)
  then have fn: "f < ?n" using npos by linarith
  have fmin: "\<And>i. s < run_start runs (Suc i) \<Longrightarrow> f \<le> i"
    unfolding f_def by (rule Least_le)
  have fstart: "run_start runs f \<le> s"
  proof (cases f)
    case 0 then show ?thesis by simp
  next
    case (Suc k)
    then have "\<not> s < run_start runs (Suc k)" using fmin [of k] by auto
    with Suc show ?thesis by simp
  qed
  define l where "l = (GREATEST i. i < ?n \<and> run_start runs i < e)"
  have lex: "f < ?n \<and> run_start runs f < e" using fn fstart se by simp
  have bnd: "\<And>i. i < ?n \<and> run_start runs i < e \<Longrightarrow> i \<le> ?n" by simp
  have l1: "l < ?n \<and> run_start runs l < e"
    unfolding l_def using lex bnd by (rule GreatestI_nat)
  have lmax: "i \<le> l" if "i < ?n \<and> run_start runs i < e" for i
    unfolding l_def using that bnd by (rule Greatest_le_nat)
  have fl: "f \<le> l" using lmax lex by blast
  have lend: "e \<le> run_end runs l"
  proof (cases "Suc l < ?n")
    case True
    then have "\<not> run_start runs (Suc l) < e" using lmax [of "Suc l"] by auto
    then show ?thesis using l1 by (simp add: run_start_Suc)
  next
    case False
    then have "run_start runs (Suc l) = length (runs_text runs)"
      by (simp add: run_start_length)
    then show ?thesis using l1 el by (simp add: run_start_Suc)
  qed
  have iff: "(s < run_end runs i \<and> run_start runs i < e) \<longleftrightarrow> f \<le> i \<and> i \<le> l"
    if "i < ?n" for i
  proof
    assume a: "s < run_end runs i \<and> run_start runs i < e"
    then have "s < run_start runs (Suc i)" using that by (simp add: run_start_Suc)
    then have "f \<le> i" by (rule fmin)
    moreover have "i \<le> l" using a that lmax by blast
    ultimately show "f \<le> i \<and> i \<le> l" ..
  next
    assume a: "f \<le> i \<and> i \<le> l"
    then have "run_start runs (Suc f) \<le> run_start runs (Suc i)"
      by (intro run_start_mono) simp
    then have "s < run_end runs i" using f1 that by (simp add: run_start_Suc)
    moreover have "run_start runs i \<le> run_start runs l" using a by (intro run_start_mono) simp
    then have "run_start runs i < e" using l1 by simp
    ultimately show "s < run_end runs i \<and> run_start runs i < e" ..
  qed
  show ?thesis
    using that [of f l] fl l1 fstart f1 fn lend iff by (simp add: run_start_Suc)
qed

section \<open>The result of a substitution\<close>

lemma length_set_text [simp]: "length (set_text rs i s) = length rs"
  by (simp add: set_text_def)

lemma nth_set_text:
  "j < length rs \<Longrightarrow> set_text rs i s ! j = (if j = i then (rs ! j)\<lparr>run_text := s\<rparr> else rs ! j)"
  by (simp add: set_text_def nth_list_update)

lemma length_blank_runs [simp]: "length (blank_runs rs js) = length rs"
  unfolding blank_runs_def by (induction js arbitrary: rs) simp_all

lemma nth_blank_runs:
  "j < length rs \<Longrightarrow>
     blank_runs rs js ! j = (if j \<in> set js then (rs ! j)\<lparr>run_text := []\<rparr> else rs ! j)"
  unfolding blank_runs_def
  by (induction js arbitrary: rs) (auto simp: nth_set_text)

text \<open>
  The result of a call whose match \<open>[s, e)\<close>, an interval of offsets into
  \<^verbatim>\<open>paragraph.text\<close>, selects the runs \<open>f, \<dots>, l\<close> of \<^verbatim>\<open>paragraph.runs\<close>.
\<close>

lemma far_core:
  assumes fo: "str_find (paragraph_text p) target = Some s"
    and runs: "paragraph_runs p = runs"
    and e: "e = s + length target"
    and fl: "f \<le> l" "l < length runs"
    and pos: "run_start runs f \<le> s" "run_start runs l \<le> e"
    and iff: "\<And>i. i < length runs \<Longrightarrow>
                (s < run_end runs i \<and> run_start runs i < e) \<longleftrightarrow> f \<le> i \<and> i \<le> l"
  shows "find_and_replace_in_paragraph p target repl =
     (True, put_runs p
      (if f = l
       then set_text runs f (take (s - run_start runs f) (run_text (runs ! f)) @ repl
                               @ drop (e - run_start runs l) (run_text (runs ! l)))
       else set_text
              (blank_runs
                 (set_text runs f (take (s - run_start runs f) (run_text (runs ! f)) @ repl))
                 [Suc f..<l])
              l (drop (e - run_start runs l) (run_text (runs ! l)))))"
proof -
  let ?g = "\<lambda>i. (run_start runs i, run_end runs i, i)"
  let ?P = "\<lambda>(run_start, run_end, run_idx :: nat). run_end > s \<and> run_start < e"
  have ne: "runs \<noteq> []" using fl by auto
  have "filter ?P (build_run_positions runs 0 0) = map ?g (filter (?P \<circ> ?g) [0..<length runs])"
    by (simp add: build_run_positions_eq filter_map)
  also have "filter (?P \<circ> ?g) [0..<length runs] = [f..<Suc l]"
    using fl iff by (intro filter_upt_interval) auto
  finally have A: "filter ?P (build_run_positions runs 0 0) = map ?g [f..<Suc l]" .
  have nonempty: "[f..<Suc l] \<noteq> []" using fl by simp
  have H: "hd (map ?g [f..<Suc l]) = ?g f" using fl by (simp add: hd_map upt_conv_Cons del: upt_Suc)
  have L: "last (map ?g [f..<Suc l]) = ?g l" using fl by (simp add: last_map)
  have "butlast (tl (map ?g [f..<Suc l])) = map ?g (butlast (tl [f..<Suc l]))"
    by (simp add: map_tl map_butlast)
  also have "butlast (tl [f..<Suc l]) = [Suc f..<l]"
    using fl by (cases "f = l") (simp_all add: upt_conv_Cons)
  finally have M: "butlast (tl (map ?g [f..<Suc l])) = map ?g [Suc f..<l]" .
  have F: "foldl (\<lambda>rs (_, _, run_idx). set_text rs run_idx []) rs0 (map ?g js) = blank_runs rs0 js"
    for rs0 js
    by (simp add: foldl_map blank_runs_def)
  have S1: "slice_to t (int s - int (run_start runs f)) = take (s - run_start runs f) t" for t
    using pos by (simp add: slice_to_def nat_diff_distrib')
  have S2: "slice_from t (int e - int (run_start runs l)) = drop (e - run_start runs l) t" for t
    using pos by (simp add: slice_from_def nat_diff_distrib')
  have R: "find_and_replace_in_paragraph p target repl =
     (if f = l
      then (True, put_runs p
              (set_text runs f (slice_to (run_text (runs ! f)) (int s - int (run_start runs f))
                 @ repl @ slice_from (run_text (runs ! l)) (int e - int (run_start runs l)))))
      else (True, put_runs p (set_text
             (blank_runs
                (set_text runs f
                   (slice_to (run_text (runs ! f)) (int s - int (run_start runs f)) @ repl))
                [Suc f..<l])
             l (slice_from (run_text (runs ! l)) (int e - int (run_start runs l))))))"
    unfolding find_and_replace_in_paragraph_def Let_def fo option.case e [symmetric] runs A
    using ne nonempty by (simp add: H L M F del: upt_Suc)
  show ?thesis unfolding R S1 S2 by simp
qed

lemma far_nth:
  assumes fo: "str_find (paragraph_text p) target = Some s"
    and runs: "paragraph_runs p = runs"
    and e: "e = s + length target"
    and fl: "f \<le> l" "l < length runs"
    and pos: "run_start runs f \<le> s" "run_start runs l \<le> e"
    and iff: "\<And>i. i < length runs \<Longrightarrow>
                (s < run_end runs i \<and> run_start runs i < e) \<longleftrightarrow> f \<le> i \<and> i \<le> l"
  shows "\<exists>runs'. find_and_replace_in_paragraph p target repl = (True, put_runs p runs')
           \<and> length runs' = length runs
           \<and> (\<forall>j<length runs. runs' ! j = (runs ! j)\<lparr>run_text := new_text runs s e repl f l j\<rparr>)"
proof -
  note R = far_core [OF assms, of repl]
  show ?thesis
  proof (cases "f = l")
    case True
    have "find_and_replace_in_paragraph p target repl =
       (True, put_runs p (set_text runs f (new_text runs s e repl f l f)))"
      using R True by (simp add: new_text_def)
    then show ?thesis using True by (auto simp: nth_set_text new_text_def)
  next
    case False
    then have "find_and_replace_in_paragraph p target repl =
       (True, put_runs p
          (set_text (blank_runs (set_text runs f (new_text runs s e repl f l f)) [Suc f..<l])
                l (new_text runs s e repl f l l)))"
      using R by (simp add: new_text_def)
    then show ?thesis using False fl by (auto simp: nth_set_text nth_blank_runs new_text_def)
  qed
qed

lemma map_nth_upt: "b \<le> length xs \<Longrightarrow> map ((!) xs) [a..<b] = drop a (take b xs)"
  by (rule nth_equalityI) auto

lemma upt_split: "a \<le> b \<Longrightarrow> b \<le> c \<Longrightarrow> [a..<c] = [a..<b] @ [b..<c]"
  by (metis le_add_diff_inverse upt_add_eq_append)

lemma run_start_conv: "run_start runs i = length (concat (take i (map run_text runs)))"
  by (simp add: run_start_def runs_text_def take_map)

lemma far_text_interval:
  assumes fo: "str_find (paragraph_text p) target = Some s"
    and runs: "paragraph_runs p = runs"
    and e: "e = s + length target"
    and fl: "f \<le> l" "l < length runs"
    and pos: "run_start runs f \<le> s" "run_start runs l \<le> e"
    and iff: "\<And>i. i < length runs \<Longrightarrow>
                (s < run_end runs i \<and> run_start runs i < e) \<longleftrightarrow> f \<le> i \<and> i \<le> l"
    and ends: "s \<le> run_end runs f" "e \<le> run_end runs l"
  shows "\<exists>runs'. find_and_replace_in_paragraph p target repl = (True, put_runs p runs')
           \<and> length runs' = length runs
           \<and> runs_text runs' = take s (runs_text runs) @ repl @ drop e (runs_text runs)"
proof -
  let ?n = "length runs"
  let ?ts = "map run_text runs"
  let ?nt = "new_text runs s e repl f l"
  let ?pre = "take (s - run_start runs f) (run_text (runs ! f))"
  let ?suf = "drop (e - run_start runs l) (run_text (runs ! l))"
  from far_nth [OF fo runs e fl pos iff, of repl]
  obtain runs' where r: "find_and_replace_in_paragraph p target repl = (True, put_runs p runs')"
    and len: "length runs' = ?n"
    and nth: "\<And>j. j < ?n \<Longrightarrow> runs' ! j = (runs ! j)\<lparr>run_text := ?nt j\<rparr>"
    by blast
  have texts: "map run_text runs' = map ?nt [0..<?n]"
    using len nth by (intro nth_equalityI) auto
  have before: "map ?nt [0..<f] = take f ?ts"
  proof -
    have "map ?nt [0..<f] = map ((!) ?ts) [0..<f]"
      using fl by (auto simp: new_text_def)
    also have "\<dots> = take f ?ts" using fl by (simp add: map_nth_upt)
    finally show ?thesis .
  qed
  have after: "map ?nt [Suc l..<?n] = drop (Suc l) ?ts"
  proof -
    have "map ?nt [Suc l..<?n] = map ((!) ?ts) [Suc l..<?n]"
      using fl by (auto simp: new_text_def)
    also have "\<dots> = drop (Suc l) ?ts" by (simp add: map_nth_upt)
    finally show ?thesis .
  qed
  have mid: "concat (map ?nt [f..<Suc l]) = ?pre @ repl @ ?suf"
  proof (cases "f = l")
    case True
    then show ?thesis by (simp add: new_text_def)
  next
    case False
    then have "[f..<Suc l] = f # [Suc f..<l] @ [l]" using fl by (simp add: upt_conv_Cons)
    moreover have "concat (map ?nt [Suc f..<l]) = []" by (auto simp: new_text_def)
    ultimately show ?thesis using False by (simp add: new_text_def)
  qed
  have split: "[0..<?n] = [0..<f] @ [f..<Suc l] @ [Suc l..<?n]"
    using fl upt_split [of 0 f ?n] upt_split [of f "Suc l" ?n] by simp
  have "runs_text runs' = concat (map ?nt [0..<?n])"
    by (simp add: runs_text_def texts)
  also have "\<dots> = concat (take f ?ts) @ (?pre @ repl @ ?suf) @ concat (drop (Suc l) ?ts)"
    by (subst split) (simp add: before after mid del: upt_Suc)
  also have "concat (take f ?ts) @ ?pre = take s (runs_text runs)"
    unfolding runs_text_def
    using take_concat_at(1) [of f ?ts s] fl pos(1) ends(1)
    by (simp add: run_start_conv run_end_def)
  then have "concat (take f ?ts) @ (?pre @ repl @ ?suf) @ concat (drop (Suc l) ?ts) =
      take s (runs_text runs) @ repl @ (?suf @ concat (drop (Suc l) ?ts))"
    by simp
  also have "?suf @ concat (drop (Suc l) ?ts) = drop e (runs_text runs)"
    unfolding runs_text_def
    using take_concat_at(2) [of l ?ts e] fl pos(2) ends(2)
    by (simp add: run_start_conv run_end_def)
  finally have "runs_text runs' = take s (runs_text runs) @ repl @ drop e (runs_text runs)" .
  with r len show ?thesis by blast
qed

text \<open>
  On a paragraph without hyperlink text a non-empty target that occurs is replaced at its
  leftmost occurrence.
\<close>

lemma far_text:
  assumes tr: "text_is_runs p"
    and fo: "str_find (paragraph_text p) target = Some s" and ne: "target \<noteq> []"
  shows "fst (find_and_replace_in_paragraph p target repl)"
    and "runs_text (paragraph_runs (snd (find_and_replace_in_paragraph p target repl))) =
           take s (runs_text (paragraph_runs p)) @ repl
             @ drop (s + length target) (runs_text (paragraph_runs p))"
proof -
  define e where "e = s + length target"
  define runs where "runs = paragraph_runs p"
  have runs: "paragraph_runs p = runs" by (simp add: runs_def)
  have pt: "paragraph_text p = runs_text runs" using tr by (simp add: text_is_runs_def runs_def)
  have se: "s < e" using ne by (simp add: e_def)
  have "occurs_at (runs_text runs) target s"
    using fo pt by (simp add: str_find_Some first_occurrence_def)
  then have el: "e \<le> length (runs_text runs)" unfolding e_def by (rule occurs_at_bound)
  from affected_interval [OF se el]
  obtain f l where fl: "f \<le> l" "l < length runs"
    and b: "run_start runs f \<le> s" "s < run_end runs f" "run_start runs l < e" "e \<le> run_end runs l"
    and iff: "\<And>i. i < length runs \<Longrightarrow>
                (s < run_end runs i \<and> run_start runs i < e) \<longleftrightarrow> f \<le> i \<and> i \<le> l"
    by blast
  have pos: "run_start runs f \<le> s" "run_start runs l \<le> e" using b by simp_all
  have ends: "s \<le> run_end runs f" "e \<le> run_end runs l" using b by simp_all
  from far_text_interval [OF fo runs e_def fl pos iff ends, of repl]
  obtain runs' where r: "find_and_replace_in_paragraph p target repl = (True, put_runs p runs')"
    and len: "length runs' = length runs"
    and t: "runs_text runs' = take s (runs_text runs) @ repl @ drop e (runs_text runs)"
    by blast
  show "fst (find_and_replace_in_paragraph p target repl)" using r by simp
  have "paragraph_runs (put_runs p runs') = runs'"
    using len runs by (intro paragraph_runs_put_runs) simp
  then show "runs_text (paragraph_runs (snd (find_and_replace_in_paragraph p target repl))) =
           take s (runs_text (paragraph_runs p)) @ repl
             @ drop (s + length target) (runs_text (paragraph_runs p))"
    using r t by (simp add: runs e_def)
qed

lemma far_empty_target: "find_and_replace_in_paragraph p [] repl = (False, p)"
proof -
  have "str_find (paragraph_text p) [] = Some 0"
    by (simp add: str_find_Some first_occurrence_def occurs_at_def)
  then show ?thesis
    by (simp add: find_and_replace_in_paragraph_def Let_def filter_empty_conv split_def)
qed

lemma far_False_unchanged:
  "find_and_replace_in_paragraph p target repl = (False, p') \<Longrightarrow> p' = p"
  by (auto simp: find_and_replace_in_paragraph_def Let_def split_def
      split: option.splits if_splits)

lemma far_absent:
  "str_find (paragraph_text p) target = None \<Longrightarrow>
     find_and_replace_in_paragraph p target repl = (False, p)"
  by (simp add: find_and_replace_in_paragraph_def)

lemma far_True_found:
  assumes "fst (find_and_replace_in_paragraph p target repl)"
  shows "target \<noteq> []" and "\<exists>s. str_find (paragraph_text p) target = Some s"
proof -
  show "target \<noteq> []" using assms by (auto simp: far_empty_target)
  show "\<exists>s. str_find (paragraph_text p) target = Some s"
    using assms by (cases "str_find (paragraph_text p) target")
      (auto simp: find_and_replace_in_paragraph_def)
qed

lemma overlaps_iff:
  "overlaps runs s e i \<longleftrightarrow>
     i < length runs \<and> s < run_end runs i \<and> run_start runs i < e \<and> s < e
       \<and> run_text (runs ! i) \<noteq> []"
  by (auto simp: overlaps_def run_end_def)


section \<open>Properties of the run-level substitution\<close>

subsection \<open>C1: which runs a substitution rewrites\<close>

text \<open>
  On a paragraph without hyperlink text the code rewrites the runs as claim C1 says.
  Let \<open>target_text\<close> occur in the concatenation of the runs' texts, with leftmost
  occurrence \<open>[s, e)\<close>, and let \<open>runs'\<close> be the runs after the call. Then no run is added
  or removed and no formatting attribute changes; a run that does not overlap the matched
  span keeps its text; if exactly one run \<open>f\<close> overlaps the span its text becomes
  prefix + replacement + suffix, the prefix and suffix being its own text before and after
  the match; if the overlapping runs reach from \<open>f\<close> to a later run \<open>l\<close>, run \<open>f\<close>
  becomes prefix + replacement, every run strictly between them becomes empty, and run
  \<open>l\<close> becomes its suffix after the match. (For the empty target no run overlaps the
  span and nothing is rewritten.)
\<close>

lemma rewrites_affected_runs_without_hyperlink_text:
  assumes tr: "text_is_runs p"
    and runs: "paragraph_runs p = runs"
    and fo: "first_occurrence (runs_text runs) target_text s"
    and e: "e = s + length target_text"
    and res: "find_and_replace_in_paragraph p target_text replacement = (ok, p')"
    and runs': "paragraph_runs p' = runs'"
  shows "length runs' = length runs
    \<and> (\<forall>i<length runs. fmt (runs' ! i) = fmt (runs ! i))
    \<and> (\<forall>i<length runs. \<not> overlaps runs s e i \<longrightarrow> run_text (runs' ! i) = run_text (runs ! i))
    \<and> (\<forall>f. overlaps runs s e f \<and> (\<forall>i. overlaps runs s e i \<longrightarrow> i = f) \<longrightarrow>
           run_text (runs' ! f) =
             take (s - run_start runs f) (run_text (runs ! f)) @ replacement
               @ drop (e - run_start runs f) (run_text (runs ! f)))
    \<and> (\<forall>f l. f < l \<and> overlaps runs s e f \<and> overlaps runs s e l
             \<and> (\<forall>i. overlaps runs s e i \<longrightarrow> f \<le> i \<and> i \<le> l) \<longrightarrow>
           run_text (runs' ! f) = take (s - run_start runs f) (run_text (runs ! f)) @ replacement
         \<and> (\<forall>i. f < i \<and> i < l \<longrightarrow> run_text (runs' ! i) = [])
         \<and> run_text (runs' ! l) = drop (e - run_start runs l) (run_text (runs ! l)))"
proof (cases "target_text = []")
  case True
  then have "p' = p" using res by (simp add: far_empty_target)
  then have "runs' = runs" using runs runs' by simp
  moreover have "\<not> overlaps runs s e i" for i using True e by (simp add: overlaps_def)
  ultimately show ?thesis by simp
next
  case False
  have pt: "paragraph_text p = runs_text runs" using tr runs by (simp add: text_is_runs_def)
  have sf: "str_find (paragraph_text p) target_text = Some s"
    using fo pt by (simp add: str_find_Some)
  have se: "s < e" using False e by simp
  have el: "e \<le> length (runs_text runs)"
    using fo occurs_at_bound e by (simp add: first_occurrence_def)
  from affected_interval [OF se el]
  obtain f0 l0 where fl: "f0 \<le> l0" "l0 < length runs"
    and b: "run_start runs f0 \<le> s" "s < run_end runs f0"
           "run_start runs l0 < e" "e \<le> run_end runs l0"
    and iff: "\<And>i. i < length runs \<Longrightarrow>
                (s < run_end runs i \<and> run_start runs i < e) \<longleftrightarrow> f0 \<le> i \<and> i \<le> l0"
    by blast
  have pos: "run_start runs f0 \<le> s" "run_start runs l0 \<le> e" using b by simp_all
  from far_nth [OF sf runs e fl pos iff, of replacement]
  obtain rs' where r: "find_and_replace_in_paragraph p target_text replacement =
        (True, put_runs p rs')"
    and len0: "length rs' = length runs"
    and nth0: "\<And>j. j < length runs \<Longrightarrow>
        rs' ! j = (runs ! j)\<lparr>run_text := new_text runs s e replacement f0 l0 j\<rparr>"
    by blast
  have "paragraph_runs (put_runs p rs') = rs'"
    using len0 runs by (intro paragraph_runs_put_runs) simp
  then have eq: "runs' = rs'" using r res runs' by simp
  have len: "length runs' = length runs" using len0 eq by simp
  have nth: "\<And>j. j < length runs \<Longrightarrow>
        runs' ! j = (runs ! j)\<lparr>run_text := new_text runs s e replacement f0 l0 j\<rparr>"
    using nth0 eq by simp
  have ov_f0: "overlaps runs s e f0"
    using fl b se by (auto simp: overlaps_def)
  have ov_l0: "overlaps runs s e l0"
    using fl b se by (auto simp: overlaps_def)
  have ov_range: "f0 \<le> i \<and> i \<le> l0" if "overlaps runs s e i" for i
    using that iff [of i] by (simp add: overlaps_iff)
  have inner_empty: "run_text (runs ! i) = []"
    if "i < length runs" "f0 \<le> i" "i \<le> l0" "\<not> overlaps runs s e i" for i
    using that iff [of i] se by (auto simp: overlaps_iff)
  have c1: "\<forall>i<length runs. fmt (runs' ! i) = fmt (runs ! i)"
    by (simp add: nth fmt_def)
  have c2: "\<forall>i<length runs. \<not> overlaps runs s e i \<longrightarrow> run_text (runs' ! i) = run_text (runs ! i)"
  proof (intro allI impI)
    fix i assume i: "i < length runs" and no: "\<not> overlaps runs s e i"
    have "i \<noteq> f0" "i \<noteq> l0" using no ov_f0 ov_l0 by auto
    then have "new_text runs s e replacement f0 l0 i = run_text (runs ! i)"
      using inner_empty [OF i _ _ no] by (auto simp: new_text_def)
    then show "run_text (runs' ! i) = run_text (runs ! i)" using i by (simp add: nth)
  qed
  have c3: "\<forall>f. overlaps runs s e f \<and> (\<forall>i. overlaps runs s e i \<longrightarrow> i = f) \<longrightarrow>
           run_text (runs' ! f) =
             take (s - run_start runs f) (run_text (runs ! f)) @ replacement
               @ drop (e - run_start runs f) (run_text (runs ! f))"
  proof (intro allI impI)
    fix f assume a: "overlaps runs s e f \<and> (\<forall>i. overlaps runs s e i \<longrightarrow> i = f)"
    then have "f0 = f" "l0 = f" using ov_f0 ov_l0 by auto
    then show "run_text (runs' ! f) =
             take (s - run_start runs f) (run_text (runs ! f)) @ replacement
               @ drop (e - run_start runs f) (run_text (runs ! f))"
      using fl by (simp add: nth new_text_def)
  qed
  have c4: "\<forall>f l. f < l \<and> overlaps runs s e f \<and> overlaps runs s e l
             \<and> (\<forall>i. overlaps runs s e i \<longrightarrow> f \<le> i \<and> i \<le> l) \<longrightarrow>
           run_text (runs' ! f) = take (s - run_start runs f) (run_text (runs ! f)) @ replacement
         \<and> (\<forall>i. f < i \<and> i < l \<longrightarrow> run_text (runs' ! i) = [])
         \<and> run_text (runs' ! l) = drop (e - run_start runs l) (run_text (runs ! l))"
  proof (intro allI impI)
    fix f l
    assume a: "f < l \<and> overlaps runs s e f \<and> overlaps runs s e l
             \<and> (\<forall>i. overlaps runs s e i \<longrightarrow> f \<le> i \<and> i \<le> l)"
    have "f0 = f" using a ov_f0 ov_range [of f] by (simp add: order_antisym)
    moreover have "l0 = l" using a ov_l0 ov_range [of l] by (simp add: order_antisym)
    ultimately show "run_text (runs' ! f) = take (s - run_start runs f) (run_text (runs ! f)) @ replacement
         \<and> (\<forall>i. f < i \<and> i < l \<longrightarrow> run_text (runs' ! i) = [])
         \<and> run_text (runs' ! l) = drop (e - run_start runs l) (run_text (runs ! l))"
      using a fl by (auto simp: nth new_text_def)
  qed
  show ?thesis using len c1 c2 c3 c4 by blast
qed

text \<open>
  Claim C1 says this of every run list. The code departs from it when the paragraph holds
  a hyperlink: the offsets of the match are offsets into \<^verbatim>\<open>paragraph.text\<close>, which
  contains the hyperlink's text, and they are compared with run positions that are sums of
  the lengths of \<^verbatim>\<open>paragraph.runs\<close>, which do not.

  Take the runs \<open>''ab''\<close> and \<open>''cd''\<close> with a hyperlink \<open>''XY''\<close> between them. The target
  \<open>''cd''\<close> occurs in the concatenation \<open>''abcd''\<close> of the runs' texts, first at
  \<open>[2, 4)\<close> (\<open>str_find\<close> gives the leftmost occurrence), and
  exactly run 1 overlaps it, so by the claim run 1 becomes \<open>''{{x}}''\<close>. The code finds
  the target at \<open>[4, 6)\<close> of \<open>''abXYcd''\<close>, selects no run and returns false, the paragraph
  unchanged. With the second run \<open>''cab''\<close> and the target \<open>''ca''\<close> (at \<open>[2, 4)\<close> of
  \<open>''abcab''\<close>, in run 1 only, which by the claim becomes \<open>''{{x}}b''\<close>) the code returns
  true and run 1 becomes \<open>''ca{{x}}''\<close>: the target is still there and the \<open>b\<close> after it
  is gone.
\<close>

theorem affected_runs_shifted_by_hyperlink:
  "str_find
       (runs_text (paragraph_runs
          [Run_item (plain_run ''ab''), Hyperlink_item [plain_run ''XY''],
           Run_item (plain_run ''cd'')])) ''cd'' = Some 2
   \<and> filter (overlaps (paragraph_runs
          [Run_item (plain_run ''ab''), Hyperlink_item [plain_run ''XY''],
           Run_item (plain_run ''cd'')]) 2 4) [0..<2] = [1]
   \<and> find_and_replace_in_paragraph
       [Run_item (plain_run ''ab''), Hyperlink_item [plain_run ''XY''],
        Run_item (plain_run ''cd'')] ''cd'' ''{{x}}''
     = (False,
        [Run_item (plain_run ''ab''), Hyperlink_item [plain_run ''XY''],
         Run_item (plain_run ''cd'')])
   \<and> str_find
       (runs_text (paragraph_runs
          [Run_item (plain_run ''ab''), Hyperlink_item [plain_run ''XY''],
           Run_item (plain_run ''cab'')])) ''ca'' = Some 2
   \<and> filter (overlaps (paragraph_runs
          [Run_item (plain_run ''ab''), Hyperlink_item [plain_run ''XY''],
           Run_item (plain_run ''cab'')]) 2 4) [0..<2] = [1]
   \<and> find_and_replace_in_paragraph
       [Run_item (plain_run ''ab''), Hyperlink_item [plain_run ''XY''],
        Run_item (plain_run ''cab'')] ''ca'' ''{{x}}''
     = (True,
        [Run_item (plain_run ''ab''), Hyperlink_item [plain_run ''XY''],
         Run_item (plain_run ''ca{{x}}'')])"
proof -
  have fo1: "str_find (runs_text (paragraph_runs
          [Run_item (plain_run ''ab''), Hyperlink_item [plain_run ''XY''],
           Run_item (plain_run ''cd'')])) ''cd'' = Some 2"
    by (simp add: runs_text_def plain_run_def)
  have fo2: "str_find (runs_text (paragraph_runs
          [Run_item (plain_run ''ab''), Hyperlink_item [plain_run ''XY''],
           Run_item (plain_run ''cab'')])) ''ca'' = Some 2"
    by (simp add: runs_text_def plain_run_def)
  have ov1: "filter (overlaps (paragraph_runs
          [Run_item (plain_run ''ab''), Hyperlink_item [plain_run ''XY''],
           Run_item (plain_run ''cd'')]) 2 4) [0..<2] = [1]"
    by (simp add: overlaps_def run_start_def run_end_def runs_text_def plain_run_def
        upt_conv_Cons)
  have ov2: "filter (overlaps (paragraph_runs
          [Run_item (plain_run ''ab''), Hyperlink_item [plain_run ''XY''],
           Run_item (plain_run ''cab'')]) 2 4) [0..<2] = [1]"
    by (simp add: overlaps_def run_start_def run_end_def runs_text_def plain_run_def
        upt_conv_Cons)
  have r1: "find_and_replace_in_paragraph
       [Run_item (plain_run ''ab''), Hyperlink_item [plain_run ''XY''],
        Run_item (plain_run ''cd'')] ''cd'' ''{{x}}''
     = (False,
        [Run_item (plain_run ''ab''), Hyperlink_item [plain_run ''XY''],
         Run_item (plain_run ''cd'')])"
    by code_simp
  have r2: "find_and_replace_in_paragraph
       [Run_item (plain_run ''ab''), Hyperlink_item [plain_run ''XY''],
        Run_item (plain_run ''cab'')] ''ca'' ''{{x}}''
     = (True,
        [Run_item (plain_run ''ab''), Hyperlink_item [plain_run ''XY''],
         Run_item (plain_run ''ca{{x}}'')])"
    by code_simp
  show ?thesis
    using fo1 fo2 ov1 ov2 r1 r2 by (simp only: simp_thms)
qed

subsection \<open>C2: only the leftmost occurrence is replaced\<close>

text \<open>
  Claim C2, for a non-empty target and a paragraph without hyperlink text. If
  \<open>target_text\<close> is not empty and its leftmost occurrence in the concatenation of the
  runs' texts is at offset \<open>s\<close>, the call succeeds and the concatenation afterwards is
  the old one with exactly the characters \<open>[s, s + length target_text)\<close> replaced by
  the replacement: everything before and after that span, later occurrences included, is
  kept (matching is by exact character equality). In particular every such paragraph
  whose runs concatenate to \<open>''A-X-B-X''\<close> ends, for target \<open>''X''\<close> and replacement
  \<open>''R''\<close>, with \<open>''A-R-B-X''\<close>.
\<close>

theorem leftmost_occurrence_replaced:
  "(text_is_runs p \<and> first_occurrence (runs_text (paragraph_runs p)) target_text s
      \<and> target_text \<noteq> [] \<longrightarrow>
      fst (find_and_replace_in_paragraph p target_text replacement)
    \<and> runs_text (paragraph_runs (snd (find_and_replace_in_paragraph p target_text replacement))) =
        take s (runs_text (paragraph_runs p)) @ replacement
          @ drop (s + length target_text) (runs_text (paragraph_runs p)))
  \<and> (text_is_runs q \<and> runs_text (paragraph_runs q) = ''A-X-B-X'' \<longrightarrow>
        runs_text (paragraph_runs (snd (find_and_replace_in_paragraph q ''X'' ''R''))) = ''A-R-B-X'')"
proof (intro conjI impI)
  assume a: "text_is_runs p \<and> first_occurrence (runs_text (paragraph_runs p)) target_text s
      \<and> target_text \<noteq> []"
  then have sf: "str_find (paragraph_text p) target_text = Some s"
    by (simp add: str_find_Some text_is_runs_def)
  show "fst (find_and_replace_in_paragraph p target_text replacement)"
    using far_text(1) [OF _ sf] a by simp
  show "runs_text (paragraph_runs (snd (find_and_replace_in_paragraph p target_text replacement))) =
        take s (runs_text (paragraph_runs p)) @ replacement
          @ drop (s + length target_text) (runs_text (paragraph_runs p))"
    using far_text(2) [OF _ sf] a by simp
next
  assume t: "text_is_runs q \<and> runs_text (paragraph_runs q) = ''A-X-B-X''"
  then have "str_find (paragraph_text q) ''X'' = Some 2" by (simp add: text_is_runs_def)
  from far_text(2) [OF _ this, of "''R''"] t
  show "runs_text (paragraph_runs (snd (find_and_replace_in_paragraph q ''X'' ''R''))) = ''A-R-B-X''"
    by simp
qed

text \<open>The theorem at the runs \<open>''A-''\<close>, \<open>''X-B-X''\<close>.\<close>

theorem leftmost_occurrence_replaced_witness:
  "text_is_runs [Run_item (plain_run ''A-''), Run_item ((plain_run ''X-B-X'')\<lparr>bold := True\<rparr>)]
   \<and> first_occurrence (runs_text (paragraph_runs
       [Run_item (plain_run ''A-''), Run_item ((plain_run ''X-B-X'')\<lparr>bold := True\<rparr>)])) ''X'' 2
   \<and> fst (find_and_replace_in_paragraph
       [Run_item (plain_run ''A-''), Run_item ((plain_run ''X-B-X'')\<lparr>bold := True\<rparr>)]
       ''X'' ''R'')
   \<and> runs_text (paragraph_runs (snd (find_and_replace_in_paragraph
       [Run_item (plain_run ''A-''), Run_item ((plain_run ''X-B-X'')\<lparr>bold := True\<rparr>)]
       ''X'' ''R''))) = ''A-R-B-X''"
proof -
  let ?p = "[Run_item (plain_run ''A-''), Run_item ((plain_run ''X-B-X'')\<lparr>bold := True\<rparr>)]"
  have tr: "text_is_runs ?p"
    by (simp add: text_is_runs_def paragraph_text_def runs_text_def)
  have fo: "first_occurrence (runs_text (paragraph_runs ?p)) ''X'' 2"
    by (simp add: str_find_Some [symmetric] runs_text_def plain_run_def)
  have t: "runs_text (paragraph_runs ?p) = ''A-X-B-X''"
    by (simp add: runs_text_def plain_run_def)
  from leftmost_occurrence_replaced [of ?p "''X''" 2 "''R''" ?p] tr fo t
  show ?thesis by simp
qed

text \<open>
  Without the two restrictions the claim fails. The empty string occurs in \<open>''ab''\<close> at
  offsets 0 and 1, yet the call returns false and the text stays \<open>''ab''\<close> instead of
  becoming \<open>''Rab''\<close>. And for the runs \<open>''ab''\<close> and \<open>''cdcd''\<close> with a hyperlink
  \<open>''XY''\<close> between them, the target \<open>''cd''\<close> occurs in the concatenation \<open>''abcdcd''\<close>
  of the runs' texts at offsets 2 and 4; the call returns true and the concatenation
  becomes \<open>''abcdR''\<close>, the occurrence at 4 replaced, not \<open>''abRcd''\<close>.
\<close>

theorem leftmost_occurrence_counterexample:
  "occurs_at (runs_text (paragraph_runs [Run_item (plain_run ''ab'')])) [] 0
   \<and> occurs_at (runs_text (paragraph_runs [Run_item (plain_run ''ab'')])) [] 1
   \<and> find_and_replace_in_paragraph [Run_item (plain_run ''ab'')] [] ''R''
      = (False, [Run_item (plain_run ''ab'')])
   \<and> runs_text (paragraph_runs (snd (find_and_replace_in_paragraph
        [Run_item (plain_run ''ab'')] [] ''R''))) \<noteq> ''Rab''
   \<and> occurs_at (runs_text (paragraph_runs
        [Run_item (plain_run ''ab''), Hyperlink_item [plain_run ''XY''],
         Run_item (plain_run ''cdcd'')])) ''cd'' 2
   \<and> occurs_at (runs_text (paragraph_runs
        [Run_item (plain_run ''ab''), Hyperlink_item [plain_run ''XY''],
         Run_item (plain_run ''cdcd'')])) ''cd'' 4
   \<and> fst (find_and_replace_in_paragraph
        [Run_item (plain_run ''ab''), Hyperlink_item [plain_run ''XY''],
         Run_item (plain_run ''cdcd'')] ''cd'' ''R'')
   \<and> runs_text (paragraph_runs (snd (find_and_replace_in_paragraph
        [Run_item (plain_run ''ab''), Hyperlink_item [plain_run ''XY''],
         Run_item (plain_run ''cdcd'')] ''cd'' ''R''))) = ''abcdR''
   \<and> ''abcdR'' \<noteq> ''abRcd''"
proof -
  have r: "find_and_replace_in_paragraph
        [Run_item (plain_run ''ab''), Hyperlink_item [plain_run ''XY''],
         Run_item (plain_run ''cdcd'')] ''cd'' ''R''
      = (True, [Run_item (plain_run ''ab''), Hyperlink_item [plain_run ''XY''],
                Run_item (plain_run ''cdR'')])"
    by code_simp
  show ?thesis
    unfolding r by (simp add: far_empty_target occurs_at_def runs_text_def plain_run_def)
qed

subsection \<open>C3: length of the concatenated text after a successful substitution\<close>

text \<open>
  On paragraphs without hyperlink text the code keeps the invariant of claim C3: whenever
  a substitution call returns true, on a paragraph or on a cell, the length of the
  concatenation of the runs' texts after the call is the length before, minus the length
  of the target, plus the length of the replacement.
\<close>

lemma far_True_length:
  assumes tr: "text_is_runs p"
    and res: "find_and_replace_in_paragraph p target repl = (True, p')"
  shows "int (length (runs_text (paragraph_runs p'))) =
           int (length (runs_text (paragraph_runs p))) - int (length target) + int (length repl)"
proof -
  have t: "fst (find_and_replace_in_paragraph p target repl)" using res by simp
  from far_True_found [OF t] obtain s where ne: "target \<noteq> []"
    and sf: "str_find (paragraph_text p) target = Some s" by blast
  have "occurs_at (runs_text (paragraph_runs p)) target s"
    using sf tr by (simp add: str_find_Some first_occurrence_def text_is_runs_def)
  then have "s + length target \<le> length (runs_text (paragraph_runs p))" by (rule occurs_at_bound)
  then show ?thesis using far_text(2) [OF tr sf ne, of repl] res by simp
qed

lemma cell_True_length:
  "\<forall>p \<in> set c. text_is_runs p \<Longrightarrow> find_and_replace_in_cell c target repl = (True, c') \<Longrightarrow>
     int (length (cell_runs_text c')) =
       int (length (cell_runs_text c)) - int (length target) + int (length repl)"
proof (induction c arbitrary: c')
  case Nil
  then show ?case by simp
next
  case (Cons p ps)
  obtain ok p' where r: "find_and_replace_in_paragraph p target repl = (ok, p')"
    by (cases "find_and_replace_in_paragraph p target repl")
  have tr: "text_is_runs p" and trs: "\<forall>p \<in> set ps. text_is_runs p" using Cons.prems(1) by simp_all
  show ?case
  proof (cases ok)
    case True
    with r Cons.prems(2) have "c' = p' # ps" by simp
    then show ?thesis using far_True_length [OF tr, of target repl p'] r True
      by (simp add: cell_runs_text_def)
  next
    case False
    then have p': "p' = p" using r far_False_unchanged by simp
    obtain ok2 ps' where r2: "find_and_replace_in_cell ps target repl = (ok2, ps')"
      by (cases "find_and_replace_in_cell ps target repl")
    with r False Cons.prems(2) have "ok2" "c' = p # ps'" by (simp_all add: p')
    then show ?thesis using Cons.IH [OF trs, of ps'] r2 by (simp add: cell_runs_text_def)
  qed
qed


subsection \<open>C8: a target that does not occur\<close>




subsection \<open>C10: the empty target\<close>



section \<open>Schema derivation: what the loop computes\<close>

lemma build_sub_fields_eq:
  "\<forall>cl \<in> set cls. cl_label cl \<noteq> None \<Longrightarrow>
     build_sub_fields cls acc = Inr (acc @ map sub_field_of cls)"
  by (induction cls arbitrary: acc) (auto simp: item_of_def sub_field_of_def)

lemma build_sub_fields_Inr:
  "build_sub_fields cls acc = Inr sfs \<Longrightarrow> \<forall>cl \<in> set cls. cl_label cl \<noteq> None"
  by (induction cls arbitrary: acc) (auto simp: item_of_def split: option.splits)

lemma mtype_scalar:
  "(row_mapping_type r = Some ''paragraph'' \<or> row_mapping_type r = Some ''table_cell'')
     \<longleftrightarrow> is_scalar_row r"
  by (auto simp: is_scalar_row_def)

lemma mtype_loop: "row_mapping_type r = Some ''table_loop'' \<longleftrightarrow> is_loop_row r"
  by (simp add: is_loop_row_def)

lemma not_scalar_and_loop: "is_scalar_row r \<Longrightarrow> \<not> is_loop_row r"
  by (auto simp: is_scalar_row_def is_loop_row_def)

lemma schema_loop_ready:
  "\<forall>r \<in> set rs. schema_ready r \<Longrightarrow>
     schema_loop rs flds seen = Inr (flds @ contribution rs seen)"
proof (induction rs arbitrary: flds seen)
  case Nil
  show ?case by simp
next
  case (Cons r rs)
  have rd: "schema_ready r" and rest: "\<forall>r \<in> set rs. schema_ready r"
    using Cons.prems by simp_all
  note IH = Cons.IH [OF rest]
  consider (s) "is_scalar_row r" | (l) "is_loop_row r"
    | (o) "\<not> is_scalar_row r" "\<not> is_loop_row r" by blast
  then show ?case
  proof cases
    case s
    show ?thesis using s
      by (simp add: Let_def mtype_scalar IH scalar_field_def)
  next
    case l
    then have ns: "\<not> is_scalar_row r" using not_scalar_and_loop by blast
    from l rd obtain cls where c: "row_cell_labels r = Some cls"
      and cls: "\<forall>cl \<in> set cls. cl_label cl \<noteq> None"
      by (auto simp: schema_ready_def)
    show ?thesis using l ns c build_sub_fields_eq [OF cls, of "[]"]
      by (simp add: Let_def mtype_scalar mtype_loop IH loop_field_def get_or_def)
  next
    case o
    then show ?thesis by (simp add: Let_def mtype_scalar mtype_loop IH)
  qed
qed

lemma schema_loop_Inr_ready:
  "schema_loop rs flds seen = Inr fs \<Longrightarrow> \<forall>r \<in> set rs. schema_ready r"
proof (induction rs arbitrary: flds seen)
  case Nil
  show ?case by simp
next
  case (Cons r rs)
  consider (s) "is_scalar_row r" | (l) "is_loop_row r"
    | (o) "\<not> is_scalar_row r" "\<not> is_loop_row r" by blast
  then show ?case
  proof cases
    case s
    then have nl: "\<not> is_loop_row r" by (rule not_scalar_and_loop)
    have "\<exists>flds' seen'. schema_loop rs flds' seen' = Inr fs"
      using s Cons.prems
      by (auto simp: Let_def mtype_scalar split: if_splits)
    then have "\<forall>r \<in> set rs. schema_ready r" using Cons.IH by blast
    then show ?thesis using nl by (simp add: schema_ready_def)
  next
    case l
    then have ns: "\<not> is_scalar_row r" using not_scalar_and_loop by blast
    from l ns Cons.prems obtain cls where c: "row_cell_labels r = Some cls"
      by (cases "row_cell_labels r") (auto simp: Let_def mtype_scalar mtype_loop)
    from l ns c Cons.prems obtain sfs where sfs: "build_sub_fields cls [] = Inr sfs"
      by (cases "build_sub_fields cls []") (auto simp: Let_def mtype_scalar mtype_loop)
    have "\<exists>flds' seen'. schema_loop rs flds' seen' = Inr fs"
      using l ns c sfs Cons.prems
      by (auto simp: Let_def mtype_scalar mtype_loop)
    then have "\<forall>r \<in> set rs. schema_ready r" using Cons.IH by blast
    then show ?thesis using c build_sub_fields_Inr [OF sfs] by (simp add: schema_ready_def)
  next
    case o
    then have "schema_loop rs flds seen = Inr fs" using Cons.prems
      by (simp add: Let_def mtype_scalar mtype_loop)
    then have "\<forall>r \<in> set rs. schema_ready r" using Cons.IH by blast
    then show ?thesis using o by (simp add: schema_ready_def)
  qed
qed

lemma contribution_scalar:
  "filter (\<lambda>f. f_sub_fields f = None \<and> f_name f = L) (contribution rs seen) =
     (if L \<in> seen then []
      else case find (\<lambda>r. is_scalar_row r \<and> row_label r = L) rs of
             None \<Rightarrow> [] | Some r \<Rightarrow> [scalar_field r])"
proof (induction rs arbitrary: seen)
  case Nil
  show ?case by simp
next
  case (Cons r rs)
  show ?case
  proof (cases "is_scalar_row r")
    case True
    have nm: "f_name (scalar_field r) = row_label r" "f_sub_fields (scalar_field r) = None"
      by (simp_all add: scalar_field_def)
    show ?thesis using True nm by (auto simp: Cons.IH)
  next
    case False
    then show ?thesis by (auto simp: Cons.IH loop_field_def)
  qed
qed

lemma contribution_loops:
  "filter (\<lambda>f. f_sub_fields f \<noteq> None) (contribution rs seen) =
     map loop_field (filter is_loop_row rs)"
proof (induction rs arbitrary: seen)
  case Nil
  show ?case by simp
next
  case (Cons r rs)
  show ?case
  proof (cases "is_scalar_row r")
    case True
    then have "\<not> is_loop_row r" by (rule not_scalar_and_loop)
    then show ?thesis using True by (simp add: Cons.IH scalar_field_def del: not_None_eq)
  next
    case False
    then show ?thesis by (simp add: Cons.IH loop_field_def del: not_None_eq)
  qed
qed

lemma get_template_schema_Some:
  assumes "get_template_schema get_template list_mappings template_id = Inr (Some sch)"
  shows "schema_loop (list_mappings template_id) [] {} = Inr (s_fields sch)"
  using assms
  by (auto simp: get_template_schema_def split: option.splits sum.splits)

subsection \<open>C9: first label wins, one required array field per loop mapping\<close>

text \<open>
  Where the derivation returns a schema it is the one claim C9 describes.
  \<^verbatim>\<open>get_template_schema\<close> returns a schema whenever the template exists and every loop
  row holds a list in \<^verbatim>\<open>cell_labels\<close>, each entry with its label. Whenever it returns
  a schema: for each label the scalar fields (those without sub-fields) carrying that label
  are exactly one field, built from the first scalar row with that label in registry order
  (none if there is no such row); and the loop fields (those with sub-fields) correspond
  one to one, in order, to the \<^verbatim>\<open>table_loop\<close> rows: each is named by the row's loop
  variable, has type \<open>array\<close>, is required, and carries one sub-field per
  \<^verbatim>\<open>cell_labels\<close> entry, named by the entry's label, in the entries' order.
\<close>

lemma schema_of_stored_rows:
  "(get_template template_id = Some t
      \<and> (\<forall>r \<in> set (list_mappings template_id). schema_ready r) \<longrightarrow>
      (\<exists>sch. get_template_schema get_template list_mappings template_id = Inr (Some sch)))
   \<and> (get_template_schema get_template list_mappings template_id = Inr (Some sch) \<longrightarrow>
      (\<forall>L. filter (\<lambda>f. f_sub_fields f = None \<and> f_name f = L) (s_fields sch) =
          (case find (\<lambda>r. is_scalar_row r \<and> row_label r = L) (list_mappings template_id) of
             None \<Rightarrow> []
           | Some r \<Rightarrow> [\<lparr>f_name = L,
                          f_type = row_field_type r,
                          f_required = row_required r,
                          f_original_text = row_original_text r,
                          f_sub_fields = None\<rparr>]))
      \<and> length (filter (\<lambda>f. f_sub_fields f \<noteq> None) (s_fields sch)) =
          length (filter is_loop_row (list_mappings template_id))
      \<and> (\<forall>k < length (filter is_loop_row (list_mappings template_id)).
            f_name (filter (\<lambda>f. f_sub_fields f \<noteq> None) (s_fields sch) ! k) =
              row_loop_variable (filter is_loop_row (list_mappings template_id) ! k)
          \<and> f_type (filter (\<lambda>f. f_sub_fields f \<noteq> None) (s_fields sch) ! k) = Some ''array''
          \<and> f_required (filter (\<lambda>f. f_sub_fields f \<noteq> None) (s_fields sch) ! k) = Some True
          \<and> (\<exists>cls sfs.
                row_cell_labels (filter is_loop_row (list_mappings template_id) ! k) = Some cls
                \<and> f_sub_fields (filter (\<lambda>f. f_sub_fields f \<noteq> None) (s_fields sch) ! k) = Some sfs
                \<and> map (\<lambda>sf. Some (sf_name sf)) sfs = map cl_label cls)))"
proof (intro conjI impI)
  assume "get_template template_id = Some t
      \<and> (\<forall>r \<in> set (list_mappings template_id). schema_ready r)"
  then show "\<exists>sch. get_template_schema get_template list_mappings template_id = Inr (Some sch)"
    by (simp add: get_template_schema_def schema_loop_ready)
next
  let ?rs = "list_mappings template_id"
  let ?loops = "filter (\<lambda>f. f_sub_fields f \<noteq> None) (s_fields sch)"
  assume a: "get_template_schema get_template list_mappings template_id = Inr (Some sch)"
  then have sl: "schema_loop ?rs [] {} = Inr (s_fields sch)" by (rule get_template_schema_Some)
  then have ready: "\<forall>r \<in> set ?rs. schema_ready r" by (rule schema_loop_Inr_ready)
  have fs: "s_fields sch = contribution ?rs {}"
    using sl schema_loop_ready [OF ready, of "[]" "{}"] by simp
  have loops: "?loops = map loop_field (filter is_loop_row ?rs)"
    by (simp add: fs contribution_loops del: not_None_eq)
  show "\<forall>L. filter (\<lambda>f. f_sub_fields f = None \<and> f_name f = L) (s_fields sch) =
          (case find (\<lambda>r. is_scalar_row r \<and> row_label r = L) ?rs of
             None \<Rightarrow> []
           | Some r \<Rightarrow> [\<lparr>f_name = L,
                          f_type = row_field_type r,
                          f_required = row_required r,
                          f_original_text = row_original_text r,
                          f_sub_fields = None\<rparr>])"
  proof
    fix L
    show "filter (\<lambda>f. f_sub_fields f = None \<and> f_name f = L) (s_fields sch) =
          (case find (\<lambda>r. is_scalar_row r \<and> row_label r = L) ?rs of
             None \<Rightarrow> []
           | Some r \<Rightarrow> [\<lparr>f_name = L,
                          f_type = row_field_type r,
                          f_required = row_required r,
                          f_original_text = row_original_text r,
                          f_sub_fields = None\<rparr>])"
    proof (cases "find (\<lambda>r. is_scalar_row r \<and> row_label r = L) ?rs")
      case None
      then show ?thesis by (simp add: fs contribution_scalar)
    next
      case (Some r)
      then have "row_label r = L" by (auto simp: find_Some_iff)
      then have "scalar_field r = \<lparr>f_name = L,
                          f_type = row_field_type r,
                          f_required = row_required r,
                          f_original_text = row_original_text r,
                          f_sub_fields = None\<rparr>"
        by (simp add: scalar_field_def)
      then show ?thesis using Some by (simp add: fs contribution_scalar)
    qed
  qed
  show "length ?loops = length (filter is_loop_row ?rs)" by (simp add: loops del: not_None_eq)
  show "\<forall>k < length (filter is_loop_row ?rs).
            f_name (?loops ! k) = row_loop_variable (filter is_loop_row ?rs ! k)
          \<and> f_type (?loops ! k) = Some ''array''
          \<and> f_required (?loops ! k) = Some True
          \<and> (\<exists>cls sfs. row_cell_labels (filter is_loop_row ?rs ! k) = Some cls
                \<and> f_sub_fields (?loops ! k) = Some sfs
                \<and> map (\<lambda>sf. Some (sf_name sf)) sfs = map cl_label cls)"
  proof (intro allI impI)
    fix k assume k: "k < length (filter is_loop_row ?rs)"
    let ?r = "filter is_loop_row ?rs ! k"
    have mem: "?r \<in> set (filter is_loop_row ?rs)" using k by (rule nth_mem)
    then have "is_loop_row ?r" "schema_ready ?r" using ready by auto
    then obtain cls where c: "row_cell_labels ?r = Some cls"
      and cls: "\<forall>cl \<in> set cls. cl_label cl \<noteq> None"
      by (auto simp: schema_ready_def)
    have nth: "?loops ! k = loop_field ?r" using k by (simp add: loops del: not_None_eq)
    have "map (\<lambda>sf. Some (sf_name sf)) (map sub_field_of cls) = map cl_label cls"
      using cls by (auto simp: sub_field_of_def)
    then show "f_name (?loops ! k) = row_loop_variable ?r
          \<and> f_type (?loops ! k) = Some ''array''
          \<and> f_required (?loops ! k) = Some True
          \<and> (\<exists>cls sfs. row_cell_labels ?r = Some cls
                \<and> f_sub_fields (?loops ! k) = Some sfs
                \<and> map (\<lambda>sf. Some (sf_name sf)) sfs = map cl_label cls)"
      using c by (simp add: nth loop_field_def get_or_def del: not_None_eq)
  qed
qed

text \<open>
  At the example registry: of the two scalar mappings labelled \<open>amount\<close> only the first
  yields a field, and the loop mapping yields the required array field \<open>items\<close> with its
  two sub-fields in order.
\<close>

lemma schema_of_example_registry:
  "get_template_schema draft_template (\<lambda>_. example_registry) ''t1'' =
     Inr (Some \<lparr>s_template_id = ''t1'', s_template_name = ''invoice.docx'', s_status = ''draft'',
       s_fields =
         [\<lparr>f_name = Some ''amount'', f_type = Some ''string'', f_required = Some True,
           f_original_text = Some ''5.000'', f_sub_fields = None\<rparr>,
          \<lparr>f_name = Some ''items'', f_type = Some ''array'', f_required = Some True,
           f_original_text = Some ''Table loop (2 columns)'',
           f_sub_fields = Some
             [\<lparr>sf_name = ''stt'', sf_type = ''string'', sf_original_text = ''1''\<rparr>,
              \<lparr>sf_name = ''description'', sf_type = ''string'', sf_original_text = ''''\<rparr>]\<rparr>]\<rparr>)"
  by code_simp

text \<open>
  Claim C9 says it of every \<^verbatim>\<open>table_loop\<close> mapping. The code does not reach it for a
  loop mapping created with \<^verbatim>\<open>cell_labels: []\<close>. The request is accepted (the key is
  present); \<^verbatim>\<open>db_create_mapping\<close> stores the empty list as \<^verbatim>\<open>NULL\<close>; the row read
  back holds \<^verbatim>\<open>None\<close> under \<^verbatim>\<open>cell_labels\<close>; \<^verbatim>\<open>mapping.get("cell_labels", [])\<close>
  returns that \<^verbatim>\<open>None\<close>, its default being for an absent key; and the loop over it
  raises \<^verbatim>\<open>TypeError\<close>. The derivation returns no schema, where the claim has an array
  field \<open>items\<close>, required, without sub-fields.
\<close>

theorem schema_raises_on_empty_cell_labels:
  "create_template_mapping draft_template store_row ''t1'' no_cells_mapping =
     Mapping_created no_cells_mapping
   \<and> row_mapping_type (db_row no_cells_mapping) = Some ''table_loop''
   \<and> row_loop_variable (db_row no_cells_mapping) = Some ''items''
   \<and> row_cell_labels (db_row no_cells_mapping) = None
   \<and> get_template_schema draft_template (\<lambda>_. [db_row no_cells_mapping]) ''t1'' = Inl TypeError"
  by (simp add: get_template_schema_def draft_template_def db_row_def no_cells_mapping_def
      empty_mapping_def get_or_def create_template_mapping_def create_mapping_def
      store_row_def Let_def)


section \<open>Mapping validation\<close>

lemma first_missing_None: "first_missing fs = None \<longleftrightarrow> (\<forall>p \<in> set fs. snd p)"
  by (induction fs rule: first_missing.induct) auto

lemma create_mapping_draft:
  assumes "get_template template_id = Some template" "tpl_status template \<noteq> ''published''"
    and "recognized mapping"
  shows "create_mapping get_template db_create_mapping template_id mapping =
           db_create_mapping template_id mapping"
  using assms
  by (cases "mapping_type mapping")
     (auto simp: create_mapping_def recognized_def is_scalar_def is_loop_def get_or_def)

lemma create_mapping_unavailable:
  assumes "get_template template_id = None
             \<or> (\<exists>t. get_template template_id = Some t \<and> tpl_status t = ''published'')"
  shows "create_mapping get_template db_create_mapping template_id mapping = None"
  using assms by (auto simp: create_mapping_def)

lemma type_cases:
  obtains (p) "mapping_type m = None \<or> mapping_type m = Some ''paragraph''"
  | (c) "mapping_type m = Some ''table_cell''"
  | (l) "mapping_type m = Some ''table_loop''"
  | (u) t where "mapping_type m = Some t" "t \<noteq> ''paragraph''" "t \<noteq> ''table_cell''"
      "t \<noteq> ''table_loop''"
  by (cases "mapping_type m") auto

lemma validation_passes:
  assumes "recognized mapping" "required_present mapping"
  shows "create_template_mapping get_template db_create_mapping template_id mapping =
     (case create_mapping get_template db_create_mapping template_id mapping of
        None \<Rightarrow> HTTP_400 ''Cannot create mapping (template not found or published)''
      | Some result \<Rightarrow> Mapping_created result)"
proof (cases mapping rule: type_cases)
  case p
  then show ?thesis using assms(2)
    by (auto simp: create_template_mapping_def required_present_def get_or_def)
next
  case c
  then show ?thesis using assms(2)
    by (auto simp: create_template_mapping_def required_present_def get_or_def)
next
  case l
  then show ?thesis using assms(2)
    by (auto simp: create_template_mapping_def required_present_def get_or_def)
next
  case (u t)
  then show ?thesis using assms(1)
    by (auto simp: recognized_def is_scalar_def is_loop_def)
qed

lemma validation_fails:
  assumes "\<not> (recognized mapping \<and> required_present mapping)"
  shows "rejected (create_template_mapping get_template db_create_mapping template_id mapping)"
proof (cases mapping rule: type_cases)
  case p
  then show ?thesis using assms
    by (auto simp: create_template_mapping_def required_present_def get_or_def rejected_def
        recognized_def is_scalar_def)
next
  case c
  then show ?thesis using assms
    by (auto simp: create_template_mapping_def required_present_def get_or_def rejected_def
        recognized_def is_scalar_def)
next
  case l
  then show ?thesis using assms
    by (auto simp: create_template_mapping_def required_present_def get_or_def rejected_def
        recognized_def is_loop_def)
next
  case (u t)
  then show ?thesis
    by (auto simp: create_template_mapping_def get_or_def rejected_def)
qed

subsection \<open>C6: what mapping validation rejects\<close>

text \<open>
  Claim C6, as the code has it. For a template that exists and is not published, and a
  store that returns the created row, a submitted mapping is rejected (HTTP 400) exactly
  when its variant tag is not one of the three recognised variants or a key required by
  its variant is missing; every other mapping is accepted and the stored row returned.
  (When the template does not exist or is published, every mapping is rejected.)
\<close>

theorem mapping_validation_rejects:
  "(get_template template_id = Some template \<and> tpl_status template \<noteq> ''published''
      \<and> db_create_mapping template_id mapping = Some row \<longrightarrow>
        (rejected (create_template_mapping get_template db_create_mapping template_id mapping)
           \<longleftrightarrow> \<not> recognized mapping \<or> \<not> required_present mapping)
      \<and> (recognized mapping \<and> required_present mapping \<longrightarrow>
           create_template_mapping get_template db_create_mapping template_id mapping =
             Mapping_created row))
   \<and> (get_template template_id = None
        \<or> (\<exists>t. get_template template_id = Some t \<and> tpl_status t = ''published'') \<longrightarrow>
        rejected (create_template_mapping get_template db_create_mapping template_id mapping))"
proof (intro conjI impI)
  assume a: "get_template template_id = Some template \<and> tpl_status template \<noteq> ''published''
      \<and> db_create_mapping template_id mapping = Some row"
  have ok: "create_template_mapping get_template db_create_mapping template_id mapping =
             Mapping_created row" if "recognized mapping \<and> required_present mapping"
    using that a validation_passes [of mapping get_template db_create_mapping template_id]
      create_mapping_draft [of get_template template_id template mapping db_create_mapping]
    by simp
  show "rejected (create_template_mapping get_template db_create_mapping template_id mapping)
           \<longleftrightarrow> \<not> recognized mapping \<or> \<not> required_present mapping"
  proof (cases "recognized mapping \<and> required_present mapping")
    case True
    then show ?thesis using ok by (simp add: rejected_def)
  next
    case False
    then show ?thesis using validation_fails [OF False] by blast
  qed
  assume "recognized mapping \<and> required_present mapping"
  then show "create_template_mapping get_template db_create_mapping template_id mapping =
             Mapping_created row" by (rule ok)
next
  assume u: "get_template template_id = None
        \<or> (\<exists>t. get_template template_id = Some t \<and> tpl_status t = ''published'')"
  show "rejected (create_template_mapping get_template db_create_mapping template_id mapping)"
  proof (cases "recognized mapping \<and> required_present mapping")
    case True
    then show ?thesis
      using validation_passes [of mapping get_template db_create_mapping template_id]
        create_mapping_unavailable [of get_template template_id db_create_mapping mapping] u
      by (simp add: rejected_def)
  next
    case False
    then show ?thesis by (rule validation_fails)
  qed
qed

text \<open>
  The theorem at the draft template: the mapping with an empty \<^verbatim>\<open>original_text\<close> is
  recognised and has its required keys, so it is created; the mapping with no key at all is
  rejected.
\<close>

theorem mapping_validation_rejects_witness:
  "create_template_mapping draft_template store_row ''t1'' empty_text_mapping =
     Mapping_created empty_text_mapping
   \<and> rejected (create_template_mapping draft_template store_row ''t1'' empty_mapping)
   \<and> rejected (create_template_mapping
        (\<lambda>_. Some \<lparr>tpl_name = ''invoice.docx'', tpl_status = ''published''\<rparr>) store_row ''t1''
        empty_text_mapping)"
proof -
  have r: "recognized empty_text_mapping \<and> required_present empty_text_mapping"
    by (simp add: recognized_def required_present_def is_scalar_def empty_text_mapping_def
        empty_mapping_def)
  have n: "\<not> required_present empty_mapping"
    by (simp add: required_present_def empty_mapping_def)
  have d: "draft_template ''t1'' = Some \<lparr>tpl_name = ''invoice.docx'', tpl_status = ''draft''\<rparr>
      \<and> tpl_status \<lparr>tpl_name = ''invoice.docx'', tpl_status = ''draft''\<rparr> \<noteq> ''published''"
    by (simp add: draft_template_def)
  have c1: "create_template_mapping draft_template store_row ''t1'' empty_text_mapping =
     Mapping_created empty_text_mapping"
    using mapping_validation_rejects
      [of draft_template "''t1''" "\<lparr>tpl_name = ''invoice.docx'', tpl_status = ''draft''\<rparr>"
          store_row empty_text_mapping empty_text_mapping] d r
    by (simp add: store_row_def)
  have c2: "rejected (create_template_mapping draft_template store_row ''t1'' empty_mapping)"
    using mapping_validation_rejects
      [of draft_template "''t1''" "\<lparr>tpl_name = ''invoice.docx'', tpl_status = ''draft''\<rparr>"
          store_row empty_mapping empty_mapping] d n
    by (simp add: store_row_def)
  have c3: "rejected (create_template_mapping
        (\<lambda>_. Some \<lparr>tpl_name = ''invoice.docx'', tpl_status = ''published''\<rparr>) store_row ''t1''
        empty_text_mapping)"
    using mapping_validation_rejects
      [of "\<lambda>_. Some \<lparr>tpl_name = ''invoice.docx'', tpl_status = ''published''\<rparr>" "''t1''"
          "\<lparr>tpl_name = ''invoice.docx'', tpl_status = ''published''\<rparr>"
          store_row empty_text_mapping empty_text_mapping]
    by simp
  show ?thesis using c1 c2 c3 by simp
qed

text \<open>
  As the claim words it, an empty \<^verbatim>\<open>original_text\<close>, an empty \<^verbatim>\<open>cell_labels\<close> and a
  repeated \<^verbatim>\<open>col_index\<close> would be rejected too. The code checks none of them: each of
  the three example mappings is created.
\<close>

theorem mapping_validation_counterexample:
  "empty_original_text empty_text_mapping
   \<and> create_template_mapping draft_template store_row ''t1'' empty_text_mapping =
       Mapping_created empty_text_mapping
   \<and> bad_cell_labels no_cells_mapping
   \<and> create_template_mapping draft_template store_row ''t1'' no_cells_mapping =
       Mapping_created no_cells_mapping
   \<and> bad_cell_labels same_column_mapping
   \<and> create_template_mapping draft_template store_row ''t1'' same_column_mapping =
       Mapping_created same_column_mapping"
  by (simp add: empty_original_text_def bad_cell_labels_def is_scalar_def is_loop_def
      empty_text_mapping_def no_cells_mapping_def same_column_mapping_def empty_mapping_def
      empty_cell_label_def create_template_mapping_def create_mapping_def draft_template_def
      store_row_def get_or_def)

section \<open>Materialization\<close>

lemma py_pos_nat: "k < n \<Longrightarrow> py_pos n (int k) = Some k"
  by (simp add: py_pos_def)

lemma apply_paragraph_mapping_absent:
  assumes "paragraph_index m = Some (int k)" "k < length (paragraphs doc)"
    and "original_text m = Some otext" "label m = Some lbl"
    and "str_find (paragraph_text (paragraphs doc ! k)) otext = None"
  shows "apply_paragraph_mapping doc m = Inr doc"
  using assms
  by (simp add: apply_paragraph_mapping_def get_or_def item_of_def py_pos_nat far_absent)

subsection \<open>C7: what materialization returns\<close>

text \<open>
  Claim C7, as the code has it. Whenever \<^verbatim>\<open>apply_mappings_to_document\<close> returns, the
  value it returns is \<^verbatim>\<open>True\<close>: the outcome of the single substitutions is not part of
  it. In particular a paragraph mapping whose \<^verbatim>\<open>original_text\<close> does not occur in its
  paragraph is skipped: the call returns \<^verbatim>\<open>True\<close> and the document is unchanged.
\<close>

theorem materialization_returns_true:
  "(apply_mappings_to_document doc mappings = Inr (ok, doc') \<longrightarrow> ok)
   \<and> (mapping_type m \<in> {None, Some ''paragraph''}
        \<and> paragraph_index m = Some (int k) \<and> k < length (paragraphs doc)
        \<and> original_text m = Some otext \<and> label m = Some lbl
        \<and> \<not> (\<exists>pre post. paragraph_text (paragraphs doc ! k) = pre @ otext @ post) \<longrightarrow>
        apply_mappings_to_document doc [m] = Inr (True, doc))"
proof (intro conjI impI)
  assume "apply_mappings_to_document doc mappings = Inr (ok, doc')"
  then show ok
    by (auto simp: apply_mappings_to_document_def Let_def split: sum.splits)
next
  assume a: "mapping_type m \<in> {None, Some ''paragraph''}
        \<and> paragraph_index m = Some (int k) \<and> k < length (paragraphs doc)
        \<and> original_text m = Some otext \<and> label m = Some lbl
        \<and> \<not> (\<exists>pre post. paragraph_text (paragraphs doc ! k) = pre @ otext @ post)"
  then have n: "str_find (paragraph_text (paragraphs doc ! k)) otext = None"
    by (simp add: str_find_None_iff)
  have p: "apply_paragraph_mapping doc m = Inr doc"
    using a n by (intro apply_paragraph_mapping_absent) auto
  have f1: "filter (\<lambda>m. get_or (mapping_type m) ''paragraph'' = ''paragraph'') [m] = [m]"
    using a by (auto simp: get_or_def)
  have f2: "filter (\<lambda>m. mapping_type m = Some ''table_cell'') [m] = []"
    and f3: "filter (\<lambda>m. mapping_type m = Some ''table_loop'') [m] = []"
    using a by auto
  show "apply_mappings_to_document doc [m] = Inr (True, doc)"
    unfolding apply_mappings_to_document_def Let_def f1 f2 f3 by (simp add: p)
qed

text \<open>
  The theorem at the example letter: the mapping whose text \<open>''Tran''\<close> does not occur
  leaves the letter as it is, and the call returns \<^verbatim>\<open>True\<close>.
\<close>

theorem materialization_returns_true_witness:
  "\<not> (\<exists>pre post. paragraph_text (paragraphs letter ! 0) = pre @ ''Tran'' @ post)
   \<and> apply_mappings_to_document letter [stale_mapping] = Inr (True, letter)"
proof -
  have n: "str_find (paragraph_text (paragraphs letter ! 0)) ''Tran'' = None"
    by (simp add: letter_def plain_run_def paragraph_text_def)
  have h: "\<not> (\<exists>pre post. paragraph_text (paragraphs letter ! 0) = pre @ ''Tran'' @ post)"
    by (rule iffD1 [OF str_find_None_iff n])
  have m: "mapping_type stale_mapping \<in> {None, Some ''paragraph''}
        \<and> paragraph_index stale_mapping = Some (int 0) \<and> 0 < length (paragraphs letter)
        \<and> original_text stale_mapping = Some ''Tran''
        \<and> label stale_mapping = Some ''customer_name''"
    by (simp add: stale_mapping_def empty_mapping_def letter_def)
  from materialization_returns_true
         [of letter "[stale_mapping]" True letter stale_mapping 0 "''Tran''" "''customer_name''",
          THEN conjunct2] m h
  have "apply_mappings_to_document letter [stale_mapping] = Inr (True, letter)" by blast
  with h show ?thesis by blast
qed

text \<open>
  As the claim words it, the failed substitution would show in the returned value. It does
  not: for the mapping whose text is not found (the substitution returns false) and for the
  mapping whose text is found, the call returns the same \<^verbatim>\<open>True\<close>.
\<close>

theorem materialization_failure_not_reported_counterexample:
  "find_and_replace_in_paragraph (paragraphs letter ! 0) ''Tran'' ''{{customer_name}}'' =
     (False, paragraphs letter ! 0)
   \<and> fst (find_and_replace_in_paragraph (paragraphs letter ! 0) ''Nguyen'' ''{{customer_name}}'')
   \<and> map_sum id fst (apply_mappings_to_document letter [stale_mapping]) = Inr True
   \<and> map_sum id fst (apply_mappings_to_document letter [name_mapping]) = Inr True"
  by code_simp

section \<open>Loop expansion: replacing markers\<close>

lemma replace_scan_absent:
  "\<forall>j. \<not> occurs_at s old j \<Longrightarrow> replace_scan old new s = s"
proof (induction s)
  case Nil
  show ?case by simp
next
  case (Cons c s)
  have "\<not> starts_with (c # s) old" using Cons.prems occurs_at_0 by blast
  moreover have "\<forall>j. \<not> occurs_at s old j" using Cons.prems occurs_at_Suc by blast
  ultimately show ?case using Cons.IH by simp
qed

lemma loop_marker_nonempty [simp]: "loop_marker v l \<noteq> []"
  by (simp add: loop_marker_def)

lemma py_replace_absent:
  "str_find s old = None \<Longrightarrow> py_replace old new s = s"
proof -
  assume n: "str_find s old = None"
  then have a: "\<forall>j. \<not> occurs_at s old j" by (simp add: str_find_None)
  then have "\<not> occurs_at s old 0" by blast
  then have "old \<noteq> []" by (auto simp: occurs_at_def)
  then show ?thesis using a by (simp add: py_replace_def replace_scan_absent)
qed

lemma resolve_Nil [simp]: "resolve v it [] t = t"
  by (simp add: resolve_def)

lemma resolve_Cons:
  "resolve v it (cl # cls) t =
     resolve v it cls (py_replace (loop_marker v (the (cl_label cl)))
                         (field_value it (the (cl_label cl))) t)"
  by (simp add: resolve_def)

lemma replace_markers_resolve:
  "\<forall>cl \<in> set cls. cl_label cl \<noteq> None \<Longrightarrow>
     replace_markers v it cls t = Inr (resolve v it cls t)"
proof (induction cls arbitrary: t)
  case Nil
  show ?case by simp
next
  case (Cons cl cls)
  then obtain l where l: "cl_label cl = Some l" by auto
  have IH: "replace_markers v it cls u = Inr (resolve v it cls u)" for u
    using Cons by simp
  show ?case
    by (cases "str_find t (loop_marker v l)")
       (simp_all add: l item_of_def Let_def IH resolve_Cons py_replace_absent)
qed

lemma resolve_empty [simp]: "resolve v it cls [] = []"
  by (induction cls) (simp_all add: resolve_Cons py_replace_def)

lemma fill_elem_retext:
  "\<forall>cl \<in> set cls. cl_label cl \<noteq> None \<Longrightarrow>
     fill_elem v it cls x = Inr (retext (resolve v it cls) x)"
  "\<forall>cl \<in> set cls. cl_label cl \<noteq> None \<Longrightarrow>
     fill_elems v it cls xs = Inr (map (retext (resolve v it cls)) xs)"
proof (induction v it cls x and v it cls xs rule: fill_elem_fill_elems.induct)
  case (1 loop_var it cls tg tx ch)
  have own: "(if tg = w_t
            then (case tx of
                    None \<Rightarrow> Inr None
                  | Some t \<Rightarrow>
                      if t = [] then Inr (Some t)
                      else map_sum id Some (replace_markers loop_var it cls t))
            else Inr tx) =
         Inr (if tg = w_t then map_option (resolve loop_var it cls) tx else tx)"
    using "1.prems" by (cases tx) (simp_all add: replace_markers_resolve)
  have "fill_elems loop_var it cls ch = Inr (map (retext (resolve loop_var it cls)) ch)"
    using "1.IH" [OF own "1.prems"] .
  then show ?case by (simp only: fill_elem.simps own retext.simps) simp
next
  case (2 loop_var it cls)
  show ?case by simp
next
  case (3 loop_var it cls x xs)
  then show ?case by simp
qed

lemma skeleton_retext [simp]: "skeleton (retext f x) = skeleton x"
  by (induction x) simp

lemma leaf_texts_retext: "leaf_texts (retext f x) = map (map_option f) (leaf_texts x)"
  by (induction x) (simp add: map_concat o_def cong: map_cong)

lemma clone_rows_eq:
  "\<forall>cl \<in> set cls. cl_label cl \<noteq> None \<Longrightarrow>
     clone_rows v cls template_tr items =
       Inr (map (\<lambda>item. retext (resolve v (as_dict item) cls) template_tr) items)"
  by (induction items) (simp_all add: fill_elem_retext(1))

section \<open>Loop expansion: inserting the new rows\<close>

lemma foldl_addnext:
  "r < length table \<Longrightarrow>
     foldl (\<lambda>rows new_tr. addnext rows r new_tr) table (rev new_rows) =
       take (Suc r) table @ new_rows @ drop (Suc r) table"
  by (induction new_rows) (simp_all add: addnext_def min_def)

lemma remove_row_after:
  "r < length table \<Longrightarrow>
     remove_row (take (Suc r) table @ new_rows @ drop (Suc r) table) r =
       take r table @ new_rows @ drop (Suc r) table"
  by (simp add: remove_row_def min_def take_Suc_conv_app_nth)

lemma expand_single:
  "mapping_type m = Some ''table_loop'' \<Longrightarrow>
     expand_table_loops doc data [m] = expand_loop_mapping data doc m"
  by (simp add: expand_table_loops_def split: sum.splits)

lemma expand_loop_mapping_rows:
  assumes t: "get_or (table_index m) 0 = int t" "t < length doc"
    and r: "get_or (data_row_index m) 1 = int r" "r < length (doc ! t)"
    and cls: "\<forall>cl \<in> set (get_or (cell_labels m) []). cl_label cl \<noteq> None"
    and items: "data (get_or (loop_variable m) ''items'') = Some items" "items \<noteq> []"
  shows "expand_loop_mapping data doc m =
     Inr (doc[t := take r (doc ! t)
                   @ map (\<lambda>item. retext (resolve (get_or (loop_variable m) ''items'')
                                            (as_dict item) (get_or (cell_labels m) []))
                                    (doc ! t ! r)) items
                   @ drop (Suc r) (doc ! t)])"
  using t r items
  by (simp add: expand_loop_mapping_def Let_def get_or_def [of "Some items"] py_pos_nat
      clone_rows_eq [OF cls] foldl_addnext remove_row_after)

lemma expand_no_items:
  "get_or (data (get_or (loop_variable m) ''items'')) [] = [] \<Longrightarrow>
     expand_table_loops doc data [m] = Inr doc"
  by (simp add: expand_table_loops_def expand_loop_mapping_def Let_def)

subsection \<open>C4: row count and placement of the expanded rows\<close>

text \<open>
  Claim C4. For a \<^verbatim>\<open>table_loop\<close> mapping that addresses table \<open>t\<close> of the document and
  row \<open>r\<close> of that table, whose cell labels all carry a label, and a non-empty list of
  items under the loop variable, \<^verbatim>\<open>expand_table_loops\<close> returns a document in which
  only table \<open>t\<close> has changed: the rows before and after the template row are kept, and
  in the place of the template row stand the new rows, one per item in item order, each a
  copy of the template row (same elements, texts apart) with its markers replaced for that
  item. The table then has (rows before) - 1 + (number of items) rows. When the items list
  is empty or the loop variable is absent from the data, the document is returned
  unchanged.
\<close>

theorem loop_expansion_rows:
  "(mapping_type m = Some ''table_loop''
      \<and> get_or (table_index m) 0 = int t \<and> t < length doc
      \<and> get_or (data_row_index m) 1 = int r \<and> r < length (doc ! t)
      \<and> (\<forall>cl \<in> set (get_or (cell_labels m) []). cl_label cl \<noteq> None)
      \<and> data (get_or (loop_variable m) ''items'') = Some items \<and> items \<noteq> [] \<longrightarrow>
      (\<exists>new_rows doc'.
          expand_table_loops doc data [m] = Inr doc'
        \<and> length doc' = length doc
        \<and> (\<forall>u < length doc. u \<noteq> t \<longrightarrow> doc' ! u = doc ! u)
        \<and> doc' ! t = take r (doc ! t) @ new_rows @ drop (Suc r) (doc ! t)
        \<and> length new_rows = length items
        \<and> (\<forall>k < length items.
              skeleton (new_rows ! k) = skeleton (doc ! t ! r)
            \<and> fill_elem (get_or (loop_variable m) ''items'') (as_dict (items ! k))
                 (get_or (cell_labels m) []) (doc ! t ! r) = Inr (new_rows ! k))
        \<and> int (length (doc' ! t)) = int (length (doc ! t)) - 1 + int (length items)))
   \<and> (get_or (data (get_or (loop_variable m) ''items'')) [] = [] \<longrightarrow>
        expand_table_loops doc data [m] = Inr doc)"
proof (intro conjI impI)
  let ?v = "get_or (loop_variable m) ''items''"
  let ?cls = "get_or (cell_labels m) []"
  assume a: "mapping_type m = Some ''table_loop''
      \<and> get_or (table_index m) 0 = int t \<and> t < length doc
      \<and> get_or (data_row_index m) 1 = int r \<and> r < length (doc ! t)
      \<and> (\<forall>cl \<in> set ?cls. cl_label cl \<noteq> None)
      \<and> data ?v = Some items \<and> items \<noteq> []"
  then have cls: "\<forall>cl \<in> set ?cls. cl_label cl \<noteq> None" by blast
  let ?new = "map (\<lambda>item. retext (resolve ?v (as_dict item) ?cls) (doc ! t ! r)) items"
  let ?doc' = "doc[t := take r (doc ! t) @ ?new @ drop (Suc r) (doc ! t)]"
  have e: "expand_table_loops doc data [m] = Inr ?doc'"
    using a expand_loop_mapping_rows [of m t doc r data items] by (simp add: expand_single)
  have nt: "?doc' ! t = take r (doc ! t) @ ?new @ drop (Suc r) (doc ! t)" using a by simp
  have clone: "\<forall>k < length items.
              skeleton (?new ! k) = skeleton (doc ! t ! r)
            \<and> fill_elem ?v (as_dict (items ! k)) ?cls (doc ! t ! r) = Inr (?new ! k)"
    by (simp add: fill_elem_retext(1) [OF cls])
  have cnt: "int (length (?doc' ! t)) = int (length (doc ! t)) - 1 + int (length items)"
    using a by (simp add: nt min_def)
  have other: "\<forall>u < length doc. u \<noteq> t \<longrightarrow> ?doc' ! u = doc ! u" by simp
  show "\<exists>new_rows doc'.
          expand_table_loops doc data [m] = Inr doc'
        \<and> length doc' = length doc
        \<and> (\<forall>u < length doc. u \<noteq> t \<longrightarrow> doc' ! u = doc ! u)
        \<and> doc' ! t = take r (doc ! t) @ new_rows @ drop (Suc r) (doc ! t)
        \<and> length new_rows = length items
        \<and> (\<forall>k < length items.
              skeleton (new_rows ! k) = skeleton (doc ! t ! r)
            \<and> fill_elem ?v (as_dict (items ! k)) ?cls (doc ! t ! r) = Inr (new_rows ! k))
        \<and> int (length (doc' ! t)) = int (length (doc ! t)) - 1 + int (length items)"
    by (rule exI [of _ ?new], rule exI [of _ ?doc'])
       (intro conjI e nt clone cnt other, simp_all)
next
  assume "get_or (data (get_or (loop_variable m) ''items'')) [] = []"
  then show "expand_table_loops doc data [m] = Inr doc" by (rule expand_no_items)
qed

text \<open>
  The theorem at the example invoice: with two items the three-row table ends with four
  rows, the header and the total row in place; with no data the document is unchanged.
\<close>

theorem loop_expansion_rows_witness:
  "(\<exists>new_rows doc'.
       expand_table_loops invoice_doc invoice_data [items_mapping] = Inr doc'
     \<and> doc' ! 0 = take 1 (invoice_doc ! 0) @ new_rows @ drop 2 (invoice_doc ! 0)
     \<and> length new_rows = 2
     \<and> int (length (doc' ! 0)) = 4)
   \<and> expand_table_loops invoice_doc Map.empty [items_mapping] = Inr invoice_doc"
proof -
  let ?items = "[DictItem [(''stt'', PyInt 1), (''name'', PyStr ''tea'')],
                 DictItem [(''stt'', PyInt 2)]]"
  have h: "mapping_type items_mapping = Some ''table_loop''
      \<and> get_or (table_index items_mapping) 0 = int 0 \<and> 0 < length invoice_doc
      \<and> get_or (data_row_index items_mapping) 1 = int 1 \<and> 1 < length (invoice_doc ! 0)
      \<and> (\<forall>cl \<in> set (get_or (cell_labels items_mapping) []). cl_label cl \<noteq> None)
      \<and> invoice_data (get_or (loop_variable items_mapping) ''items'') = Some ?items
      \<and> ?items \<noteq> []"
    by (simp add: items_mapping_def empty_mapping_def empty_cell_label_def get_or_def
        invoice_doc_def invoice_data_def)
  have n: "get_or (Map.empty (get_or (loop_variable items_mapping) ''items'')) [] = ([] :: item list)"
    by (simp add: get_or_def)
  note T = loop_expansion_rows [of items_mapping 0 invoice_doc 1 invoice_data ?items]
  from T [THEN conjunct1, rule_format, OF h]
  obtain new_rows doc' where
    e: "expand_table_loops invoice_doc invoice_data [items_mapping] = Inr doc'"
    and p: "doc' ! 0 = take 1 (invoice_doc ! 0) @ new_rows @ drop (Suc 1) (invoice_doc ! 0)"
    and l: "length new_rows = length ?items"
    and c: "int (length (doc' ! 0)) = int (length (invoice_doc ! 0)) - 1 + int (length ?items)"
    by blast
  have len3: "length (invoice_doc ! 0) = 3" by (simp add: invoice_doc_def)
  have c': "int (length (doc' ! 0)) = 4" unfolding c len3 by simp
  have l': "length new_rows = 2" unfolding l by simp
  note p' = p [unfolded Suc_1]
  have first: "\<exists>new_rows doc'.
       expand_table_loops invoice_doc invoice_data [items_mapping] = Inr doc'
     \<and> doc' ! 0 = take 1 (invoice_doc ! 0) @ new_rows @ drop 2 (invoice_doc ! 0)
     \<and> length new_rows = 2
     \<and> int (length (doc' ! 0)) = 4"
    by (intro exI [of _ new_rows] exI [of _ doc'] conjI e p' l' c')
  have second: "expand_table_loops invoice_doc Map.empty [items_mapping] = Inr invoice_doc"
    using loop_expansion_rows [of items_mapping 0 invoice_doc 1 Map.empty ?items, THEN conjunct2]
      n by blast
  show ?thesis using first second by blast
qed

section \<open>Loop expansion: one pass replaces every occurrence\<close>

lemma occurs_at_append: "occurs_at s t j \<Longrightarrow> occurs_at (s @ u) t j"
proof -
  assume "occurs_at s t j"
  then obtain pre post where "s = pre @ t @ post" "length pre = j"
    by (auto simp: occurs_at_iff_split)
  then have "s @ u = pre @ t @ (post @ u) \<and> length pre = j" by simp
  then show ?thesis unfolding occurs_at_iff_split by blast
qed

lemma replace_scan_self: "old \<noteq> [] \<Longrightarrow> replace_scan old new (old @ rest) = new @ replace_scan old new rest"
  by (cases old) (simp_all add: starts_with_iff)

lemma replace_scan_piece:
  assumes "old \<noteq> []" "\<forall>j. \<not> occurs_at (p @ butlast old) old j"
  shows "replace_scan old new (p @ old @ rest) = p @ new @ replace_scan old new rest"
  using assms(2)
proof (induction p)
  case Nil
  show ?case using assms(1) by (simp add: replace_scan_self)
next
  case (Cons c p)
  have split: "(c # p) @ old @ rest = ((c # p) @ butlast old) @ last old # rest"
    using assms(1) by simp
  have "length old \<le> length ((c # p) @ butlast old)" by simp
  then have "take (length old) (((c # p) @ butlast old) @ last old # rest) =
      take (length old) ((c # p) @ butlast old)"
    by (simp only: take_append) simp
  then have "take (length old) ((c # p) @ old @ rest) = take (length old) ((c # p) @ butlast old)"
    unfolding split .
  moreover have "\<not> occurs_at ((c # p) @ butlast old) old 0" using Cons.prems by blast
  ultimately have ns: "\<not> starts_with (c # p @ old @ rest) old"
    by (simp add: starts_with_iff occurs_at_def)
  have "\<forall>j. \<not> occurs_at (p @ butlast old) old j"
  proof
    fix j
    have "\<not> occurs_at ((c # p) @ butlast old) old (Suc j)" using Cons.prems by blast
    then show "\<not> occurs_at (p @ butlast old) old j" by (simp add: occurs_at_Suc)
  qed
  then have "replace_scan old new (p @ old @ rest) = p @ new @ replace_scan old new rest"
    by (rule Cons.IH)
  then show ?case using ns by simp
qed

lemma replace_scan_join:
  assumes "old \<noteq> []"
  shows "\<forall>p \<in> set ps. \<forall>j. \<not> occurs_at (p @ butlast old) old j \<Longrightarrow>
           replace_scan old new (join old ps) = join new ps"
proof (induction old ps rule: join.induct)
  case (1 sep)
  show ?case by simp
next
  case (2 sep p)
  then have "\<forall>j. \<not> occurs_at p sep j" using occurs_at_append by fastforce
  then show ?case by (simp add: replace_scan_absent)
next
  case (3 sep p q ps)
  have "sep \<noteq> []"
  proof
    assume "sep = []"
    then have "occurs_at (p @ butlast sep) sep 0" by (simp add: occurs_at_def)
    then show False using "3.prems" by simp
  qed
  moreover have "\<forall>j. \<not> occurs_at (p @ butlast sep) sep j" using "3.prems" by simp
  ultimately have "replace_scan sep new (p @ sep @ join sep (q # ps)) =
      p @ new @ replace_scan sep new (join sep (q # ps))"
    by (rule replace_scan_piece)
  then show ?case using "3.IH" "3.prems" by simp
qed

lemma py_replace_join:
  "old \<noteq> [] \<Longrightarrow> \<forall>p \<in> set ps. \<forall>j. \<not> occurs_at (p @ butlast old) old j \<Longrightarrow>
     py_replace old new (join old ps) = join new ps"
  by (simp add: py_replace_def replace_scan_join)

lemma py_replace_self: "old \<noteq> [] \<Longrightarrow> py_replace old new old = new"
  using replace_scan_self [of old new "[]"] by (simp add: py_replace_def)

lemma resolve_append:
  "resolve v it (xs @ ys) t = resolve v it ys (resolve v it xs t)"
  by (simp add: resolve_def)

lemma resolve_absent:
  "\<forall>cl \<in> set cls. str_find t (loop_marker v (the (cl_label cl))) = None \<Longrightarrow>
     resolve v it cls t = t"
  by (induction cls) (simp_all add: resolve_Cons py_replace_absent)

lemma resolve_exact_marker:
  assumes "\<forall>c \<in> set before.
             str_find (loop_marker v (the (cl_label cl))) (loop_marker v (the (cl_label c))) = None"
    and "\<forall>c \<in> set after.
             str_find (field_value it (the (cl_label cl))) (loop_marker v (the (cl_label c))) = None"
  shows "resolve v it (before @ cl # after) (loop_marker v (the (cl_label cl))) =
           field_value it (the (cl_label cl))"
  by (simp add: resolve_append resolve_Cons resolve_absent [OF assms(1)]
      resolve_absent [OF assms(2)] py_replace_self)

lemma expand_rows_nth:
  assumes "mapping_type m = Some ''table_loop''"
    and t: "get_or (table_index m) 0 = int t" "t < length doc"
    and r: "get_or (data_row_index m) 1 = int r" "r < length (doc ! t)"
    and cls: "\<forall>cl \<in> set (get_or (cell_labels m) []). cl_label cl \<noteq> None"
    and items: "data (get_or (loop_variable m) ''items'') = Some items" "items \<noteq> []"
  shows "\<exists>doc'. expand_table_loops doc data [m] = Inr doc'
           \<and> (\<forall>k < length items.
                 doc' ! t ! (r + k) =
                   retext (resolve (get_or (loop_variable m) ''items'') (as_dict (items ! k))
                             (get_or (cell_labels m) [])) (doc ! t ! r))"
proof -
  let ?new = "map (\<lambda>item. retext (resolve (get_or (loop_variable m) ''items'') (as_dict item)
                                    (get_or (cell_labels m) [])) (doc ! t ! r)) items"
  have e: "expand_table_loops doc data [m] =
      Inr (doc[t := take r (doc ! t) @ ?new @ drop (Suc r) (doc ! t)])"
    using assms expand_loop_mapping_rows [of m t doc r data items] by (simp add: expand_single)
  have "(take r (doc ! t) @ ?new @ drop (Suc r) (doc ! t)) ! (r + k) = ?new ! k"
    if "k < length items" for k
    using r(2) that by (simp add: nth_append min_def)
  then show ?thesis using e t(2) by simp
qed

subsection \<open>C5: what a new row holds in place of the markers\<close>

text \<open>
  Claim C5, as the code has it. Under the conditions of C4 the new row for the \<open>k\<close>-th
  item has the elements of the template row, and the text of each of its text leaves is
  the template leaf's text after one pass per \<^verbatim>\<open>cell_labels\<close> entry, in the entries'
  order; a pass replaces the entry's marker by the item's value for the entry's label.
  A pass is exhaustive: in a text made of pieces joined by the marker, where the marker
  occurs nowhere else, every marker is replaced by the value. The value is the stringified
  field of the item, the empty string when the label is absent, and an item that is not a
  dict counts as the dict with the single key \<open>value\<close> holding its string. A leaf that
  is exactly the marker of an entry ends as exactly that entry's value, and then holds no
  listed marker, provided no earlier entry's marker occurs inside that marker and no
  listed marker occurs inside the value.
\<close>

theorem marker_replacement_in_new_rows:
  "(mapping_type m = Some ''table_loop''
      \<and> get_or (table_index m) 0 = int t \<and> t < length doc
      \<and> get_or (data_row_index m) 1 = int r \<and> r < length (doc ! t)
      \<and> (\<forall>cl \<in> set (get_or (cell_labels m) []). cl_label cl \<noteq> None)
      \<and> data (get_or (loop_variable m) ''items'') = Some items \<and> items \<noteq> [] \<longrightarrow>
      (\<exists>doc'. expand_table_loops doc data [m] = Inr doc'
         \<and> (\<forall>k < length items.
               skeleton (doc' ! t ! (r + k)) = skeleton (doc ! t ! r)
             \<and> leaf_texts (doc' ! t ! (r + k)) =
                 map (map_option (resolve (get_or (loop_variable m) ''items'')
                                    (as_dict (items ! k)) (get_or (cell_labels m) [])))
                     (leaf_texts (doc ! t ! r)))))
   \<and> resolve v it [] txt = txt
   \<and> resolve v it (cl # cls) txt =
       resolve v it cls
         (py_replace (loop_marker v (the (cl_label cl))) (field_value it (the (cl_label cl))) txt)
   \<and> ((\<forall>p \<in> set ps. \<forall>j. \<not> occurs_at (p @ butlast (loop_marker v l)) (loop_marker v l) j) \<longrightarrow>
        py_replace (loop_marker v l) val (join (loop_marker v l) ps) = join val ps)
   \<and> field_value it l = (case map_of it l of None \<Rightarrow> [] | Some x \<Rightarrow> py_str x)
   \<and> as_dict (OtherItem x) = [(''value'', PyStr (py_str x))]
   \<and> ((\<forall>c \<in> set before.
          str_find (loop_marker v (the (cl_label cl))) (loop_marker v (the (cl_label c))) = None)
       \<and> (\<forall>c \<in> set (before @ cl # after).
          str_find (field_value it (the (cl_label cl))) (loop_marker v (the (cl_label c))) = None)
       \<longrightarrow>
         resolve v it (before @ cl # after) (loop_marker v (the (cl_label cl))) =
           field_value it (the (cl_label cl))
       \<and> (\<forall>c \<in> set (before @ cl # after).
             str_find (resolve v it (before @ cl # after) (loop_marker v (the (cl_label cl))))
               (loop_marker v (the (cl_label c))) = None))"
proof (intro conjI impI)
  assume a: "mapping_type m = Some ''table_loop''
      \<and> get_or (table_index m) 0 = int t \<and> t < length doc
      \<and> get_or (data_row_index m) 1 = int r \<and> r < length (doc ! t)
      \<and> (\<forall>cl \<in> set (get_or (cell_labels m) []). cl_label cl \<noteq> None)
      \<and> data (get_or (loop_variable m) ''items'') = Some items \<and> items \<noteq> []"
  then obtain doc' where e: "expand_table_loops doc data [m] = Inr doc'"
    and n: "\<And>k. k < length items \<Longrightarrow>
                 doc' ! t ! (r + k) =
                   retext (resolve (get_or (loop_variable m) ''items'') (as_dict (items ! k))
                             (get_or (cell_labels m) [])) (doc ! t ! r)"
    using expand_rows_nth [of m t doc r data items] by blast
  show "\<exists>doc'. expand_table_loops doc data [m] = Inr doc'
         \<and> (\<forall>k < length items.
               skeleton (doc' ! t ! (r + k)) = skeleton (doc ! t ! r)
             \<and> leaf_texts (doc' ! t ! (r + k)) =
                 map (map_option (resolve (get_or (loop_variable m) ''items'')
                                    (as_dict (items ! k)) (get_or (cell_labels m) [])))
                     (leaf_texts (doc ! t ! r)))"
    by (rule exI [of _ doc']) (simp add: e n leaf_texts_retext)
next
  show "resolve v it [] txt = txt" by simp
  show "resolve v it (cl # cls) txt =
       resolve v it cls
         (py_replace (loop_marker v (the (cl_label cl))) (field_value it (the (cl_label cl))) txt)"
    by (rule resolve_Cons)
  show "field_value it l = (case map_of it l of None \<Rightarrow> [] | Some x \<Rightarrow> py_str x)"
    by (simp add: field_value_def get_or_def split: option.splits)
  show "as_dict (OtherItem x) = [(''value'', PyStr (py_str x))]" by simp
next
  assume "\<forall>p \<in> set ps. \<forall>j. \<not> occurs_at (p @ butlast (loop_marker v l)) (loop_marker v l) j"
  then show "py_replace (loop_marker v l) val (join (loop_marker v l) ps) = join val ps"
    by (intro py_replace_join) simp_all
next
  assume a: "(\<forall>c \<in> set before.
          str_find (loop_marker v (the (cl_label cl))) (loop_marker v (the (cl_label c))) = None)
       \<and> (\<forall>c \<in> set (before @ cl # after).
          str_find (field_value it (the (cl_label cl))) (loop_marker v (the (cl_label c))) = None)"
  then have r: "resolve v it (before @ cl # after) (loop_marker v (the (cl_label cl))) =
           field_value it (the (cl_label cl))"
    by (intro resolve_exact_marker) simp_all
  show "resolve v it (before @ cl # after) (loop_marker v (the (cl_label cl))) =
           field_value it (the (cl_label cl))" by (rule r)
  show "\<forall>c \<in> set (before @ cl # after).
             str_find (resolve v it (before @ cl # after) (loop_marker v (the (cl_label cl))))
               (loop_marker v (the (cl_label c))) = None"
    unfolding r using a by blast
qed

text \<open>
  The theorem at the example invoice: the texts of the two new rows, one pass over a leaf
  with two markers, and a leaf that is exactly a marker.
\<close>

theorem marker_replacement_in_new_rows_witness:
  "(\<exists>doc'. expand_table_loops invoice_doc invoice_data [items_mapping] = Inr doc'
      \<and> leaf_texts (doc' ! 0 ! 1) = [Some ''1'', Some ''x tea / tea'']
      \<and> leaf_texts (doc' ! 0 ! 2) = [Some ''2'', Some ''x  / ''])
   \<and> py_replace (loop_marker ''items'' ''name'') ''tea''
        ''x __LOOP__items__name__ / __LOOP__items__name__'' = ''x tea / tea''
   \<and> resolve ''items'' [(''stt'', PyInt 1), (''name'', PyStr ''tea'')]
        [empty_cell_label\<lparr>cl_label := Some ''stt''\<rparr>, empty_cell_label\<lparr>cl_label := Some ''name''\<rparr>]
        ''__LOOP__items__stt__'' = ''1''"
proof -
  let ?items = "[DictItem [(''stt'', PyInt 1), (''name'', PyStr ''tea'')],
                 DictItem [(''stt'', PyInt 2)]]"
  let ?it = "[(''stt'', PyInt 1), (''name'', PyStr ''tea'')]"
  let ?stt = "empty_cell_label\<lparr>cl_label := Some ''stt''\<rparr>"
  let ?name = "empty_cell_label\<lparr>cl_label := Some ''name''\<rparr>"
  let ?ps = "[''x '', '' / '', '''']"
  have h: "mapping_type items_mapping = Some ''table_loop''
      \<and> get_or (table_index items_mapping) 0 = int 0 \<and> 0 < length invoice_doc
      \<and> get_or (data_row_index items_mapping) 1 = int 1 \<and> 1 < length (invoice_doc ! 0)
      \<and> (\<forall>cl \<in> set (get_or (cell_labels items_mapping) []). cl_label cl \<noteq> None)
      \<and> invoice_data (get_or (loop_variable items_mapping) ''items'') = Some ?items
      \<and> ?items \<noteq> []"
    by (simp add: items_mapping_def empty_mapping_def empty_cell_label_def get_or_def
        invoice_doc_def invoice_data_def)
  have pieces: "\<forall>p \<in> set ?ps. \<forall>j. \<not> occurs_at (p @ butlast (loop_marker ''items'' ''name''))
                                      (loop_marker ''items'' ''name'') j"
  proof -
    have "\<forall>p \<in> set ?ps. str_find (p @ butlast (loop_marker ''items'' ''name''))
                            (loop_marker ''items'' ''name'') = None"
      by code_simp
    then show ?thesis by (simp only: str_find_None)
  qed
  have exact: "(\<forall>c \<in> set []. str_find (loop_marker ''items'' (the (cl_label ?stt)))
                   (loop_marker ''items'' (the (cl_label c))) = None)
       \<and> (\<forall>c \<in> set ([] @ ?stt # [?name]).
             str_find (field_value ?it (the (cl_label ?stt)))
               (loop_marker ''items'' (the (cl_label c))) = None)"
    by code_simp
  note T = marker_replacement_in_new_rows
    [of items_mapping 0 invoice_doc 1 invoice_data ?items "''items''" ?it "''''" ?stt "[?name]"
        ?ps "''name''" "''tea''" "PyInt 5" "[]" "[?name]"]
  from T [THEN conjunct1, rule_format, OF h]
  obtain doc' where e: "expand_table_loops invoice_doc invoice_data [items_mapping] = Inr doc'"
    and lt: "\<And>k. k < length ?items \<Longrightarrow>
       leaf_texts (doc' ! 0 ! (1 + k)) =
         map (map_option (resolve (get_or (loop_variable items_mapping) ''items'')
                            (as_dict (?items ! k)) (get_or (cell_labels items_mapping) [])))
             (leaf_texts (invoice_doc ! 0 ! 1))"
    by blast
  have ev0: "map (map_option (resolve (get_or (loop_variable items_mapping) ''items'')
                            (as_dict (?items ! 0)) (get_or (cell_labels items_mapping) [])))
             (leaf_texts (invoice_doc ! 0 ! 1)) = [Some ''1'', Some ''x tea / tea'']"
    by code_simp
  have ev1: "map (map_option (resolve (get_or (loop_variable items_mapping) ''items'')
                            (as_dict (?items ! 1)) (get_or (cell_labels items_mapping) [])))
             (leaf_texts (invoice_doc ! 0 ! 1)) = [Some ''2'', Some ''x  / '']"
    by code_simp
  have l0: "leaf_texts (doc' ! 0 ! 1) = [Some ''1'', Some ''x tea / tea'']"
    using lt [of 0] ev0 by simp
  have l1: "leaf_texts (doc' ! 0 ! 2) = [Some ''2'', Some ''x  / '']"
    using lt [of 1] ev1 by (simp add: numeral_2_eq_2)
  have first: "\<exists>doc'. expand_table_loops invoice_doc invoice_data [items_mapping] = Inr doc'
      \<and> leaf_texts (doc' ! 0 ! 1) = [Some ''1'', Some ''x tea / tea'']
      \<and> leaf_texts (doc' ! 0 ! 2) = [Some ''2'', Some ''x  / '']"
    by (intro exI [of _ doc'] conjI e l0 l1)
  have "py_replace (loop_marker ''items'' ''name'') ''tea''
          (join (loop_marker ''items'' ''name'') ?ps) = join ''tea'' ?ps"
    using T [THEN conjunct2, THEN conjunct2, THEN conjunct2, THEN conjunct1] pieces by blast
  then have second: "py_replace (loop_marker ''items'' ''name'') ''tea''
        ''x __LOOP__items__name__ / __LOOP__items__name__'' = ''x tea / tea''"
    by (simp add: loop_marker_def)
  have "resolve ''items'' ?it ([] @ ?stt # [?name]) (loop_marker ''items'' (the (cl_label ?stt))) =
           field_value ?it (the (cl_label ?stt))"
    using T [THEN conjunct2, THEN conjunct2, THEN conjunct2, THEN conjunct2, THEN conjunct2,
             THEN conjunct2] exact by blast
  moreover have "field_value ?it (the (cl_label ?stt)) = ''1''" by code_simp
  ultimately have third: "resolve ''items'' ?it [?stt, ?name] ''__LOOP__items__stt__'' = ''1''"
    by (simp add: loop_marker_def)
  show ?thesis using first second third by blast
qed

text \<open>
  As the claim words it, no text leaf of a new row would hold a marker of a listed label.
  When the item's value for \<open>name\<close> is itself the marker text, the single new row is
  equal to the template row: its leaf is the marker of the listed label \<open>name\<close>.
\<close>

theorem marker_remains_counterexample:
  "expand_table_loops echo_doc echo_data [echo_mapping] = Inr echo_doc
   \<and> leaf_texts (echo_doc ! 0 ! 0) = [Some (loop_marker ''items'' ''name'')]
   \<and> map cl_label (get_or (cell_labels echo_mapping) []) = [Some ''name'']"
  by code_simp

end
